theory Spec2Isabelle
  imports Main "HOL-Library.Word"
begin

unbundle bit_operations_syntax

section \<open>Wide strings and the C library calls of main.c\<close>

text \<open>
  \<^verbatim>\<open>wchar_t\<close> is a 16-bit code unit on the program's platform (Windows). A
  NUL-terminated wide string is the list of its code units before the terminator. The
  fixed buffers of \<^verbatim>\<open>PATH_MAX_LEN\<close> code units and the 1024-unit output limit of
  \<^verbatim>\<open>wsprintfW\<close> are not part of the model: it describes the runs in which every
  composed path fits its buffer.
\<close>

type_synonym wchar = "16 word"
type_synonym wstring = "wchar list"
type_synonym DWORD = "32 word"

text \<open>The wide literal \<^verbatim>\<open>L"..."\<close> of an ASCII text.\<close>

definition L :: "string \<Rightarrow> wstring" where
  "L s = map (\<lambda>c. of_nat (of_char c)) s"

definition bslash :: wchar where
  "bslash = 0x5C"

definition fslash :: wchar where
  "fslash = 0x2F"

definition colon :: wchar where
  "colon = 0x3A"

definition dot :: wchar where
  "dot = 0x2E"

text \<open>
  \<^verbatim>\<open>wcsrchr(s, c)\<close>: the position of the last occurrence of \<open>c\<close>, \<open>None\<close> for the
  null pointer.
\<close>

fun wcsrchr :: "wstring \<Rightarrow> wchar \<Rightarrow> nat option" where
  "wcsrchr [] c = None"
| "wcsrchr (x # xs) c =
     (case wcsrchr xs c of
        Some i \<Rightarrow> Some (Suc i)
      | None \<Rightarrow> if x = c then Some 0 else None)"

text \<open>
  \<^verbatim>\<open>_wcsicmp(a, b) == 0\<close>. The comparison folds case; the model folds the letters
  A to Z, which is what decides a comparison with an ASCII literal.
\<close>

definition towlower :: "wchar \<Rightarrow> wchar" where
  "towlower c = (if 0x41 \<le> c \<and> c \<le> 0x5A then c + 0x20 else c)"

definition wcsicmp_eq :: "wstring \<Rightarrow> wstring \<Rightarrow> bool" where
  "wcsicmp_eq a b = (map towlower a = map towlower b)"

section \<open>Display name of a shortcut (wmain, both modes)\<close>

text \<open>
  \<^verbatim>\<open>const wchar_t suf[] = L" - \<dots>"\<close>: a blank, a hyphen, a blank and the five
  Cyrillic letters U+042F U+0440 U+043B U+044B U+043A (the Russian word for a shortcut).
\<close>

definition suf :: wstring where
  "suf = [0x20, 0x2D, 0x20, 0x042F, 0x0440, 0x043B, 0x044B, 0x043A]"

text \<open>
  Lines 180-183 and 200-203, which are the same text:
  \<^verbatim>\<open>
  wcscpy(link_name, ffd.cFileName);
  wchar_t *dot = wcsrchr(link_name, L'.'); if (dot) *dot = L'\0';
  size_t ln = wcslen(link_name), sl = wcslen(suf);
  if (ln>sl && wcscmp(link_name+ln-sl, suf)==0) link_name[ln-sl]=L'\0';
  \<close>
\<close>

definition link_name :: "wstring \<Rightarrow> wstring" where
  "link_name cFileName =
     (let name1 = (case wcsrchr cFileName dot of
                     Some i \<Rightarrow> take i cFileName
                   | None \<Rightarrow> cFileName);
          ln = length name1;
          sl = length suf
      in if ln > sl \<and> drop (ln - sl) name1 = suf then take (ln - sl) name1 else name1)"

section \<open>The file system and the library calls\<close>

text \<open>Attribute bits and the error code of \<^verbatim>\<open>windows.h\<close> that main.c names.\<close>

definition FILE_ATTRIBUTE_HIDDEN :: DWORD where
  "FILE_ATTRIBUTE_HIDDEN = 0x2"

definition FILE_ATTRIBUTE_SYSTEM :: DWORD where
  "FILE_ATTRIBUTE_SYSTEM = 0x4"

definition FILE_ATTRIBUTE_DIRECTORY :: DWORD where
  "FILE_ATTRIBUTE_DIRECTORY = 0x10"

definition ERROR_ALREADY_EXISTS :: DWORD where
  "ERROR_ALREADY_EXISTS = 183"

text \<open>
  What \<^verbatim>\<open>FindFirstFileW\<close>/\<^verbatim>\<open>FindNextFileW\<close> report for one child
  (\<^verbatim>\<open>WIN32_FIND_DATAW\<close>: name and attributes), together with what the same calls
  enumerate for the pattern \<^verbatim>\<open><child>\*\<close>: \<open>None\<close> is
  \<^verbatim>\<open>INVALID_HANDLE_VALUE\<close>, \<open>Some\<close> the children in enumeration order. The tree is
  finite, so the walk of a tree without cycles is a total function; a real listing
  holds the entries \<^verbatim>\<open>.\<close> and \<^verbatim>\<open>..\<close>, which the tree may contain as leaves.
  An enumeration that succeeds yields at least one entry; the model reads an empty one
  as a loop that ends at once.
\<close>

datatype dirent =
  Dirent (cFileName: wstring) (dwFileAttributes: DWORD) (listing: "dirent list option")

record FileEntry =
  full :: wstring
  rel :: wstring

text \<open>
  The calls main.c makes into the operating system and into minizip-ng, as functions of
  their arguments. The source trees do not change during a run.
  \<^item> \<open>FindFirstFileW\<close>: the enumeration of a pattern given as a path;
  \<^item> \<open>resolve_link\<close>: the target of a shortcut, \<open>None\<close> when a COM call fails;
  \<^item> \<open>GetFileAttributesW\<close>: the attributes of a path (all bits set on failure);
  \<^item> \<open>CreateDirectoryW\<close>: \<open>None\<close> on success, otherwise \<^verbatim>\<open>GetLastError()\<close>;
  \<^item> \<open>mz_zip_writer_open_file\<close>: whether the archive opens (\<^verbatim>\<open>MZ_OK\<close>);
  \<^item> \<open>file_of_path\<close>: the file that a path names. Windows compares file names without
    regard to the case of their letters, and one file has many spellings of its path: two
    paths name the same file exactly when this function gives them the same value.
\<close>

record env =
  FindFirstFileW :: "wstring \<Rightarrow> dirent list option"
  resolve_link :: "wstring \<Rightarrow> wstring option"
  GetFileAttributesW :: "wstring \<Rightarrow> DWORD"
  CreateDirectoryW :: "wstring \<Rightarrow> DWORD option"
  mz_zip_writer_open_file :: "wstring \<Rightarrow> bool"
  file_of_path :: "wstring \<Rightarrow> wstring"

text \<open>
  What a run leaves behind: the lines written to the console (standard output and
  standard error as one sequence), one event per \<^verbatim>\<open>wprintf\<close>/\<^verbatim>\<open>fwprintf\<close> call
  with its arguments, and the archive files, each under the file that its path names
  (\<open>file_of_path\<close>) and each the list of the \<^verbatim>\<open>mz_zip_writer_add_file\<close> calls made on
  it (source path, name handed over for the entry). Opening an archive replaces what the
  file held, under whatever spelling of its path it was written before. The names are
  kept as wide strings; \<^verbatim>\<open>WideCharToMultiByte\<close> only re-encodes them. The name under
  which the backend stores an entry is \<open>archive_name\<close> below.
\<close>

datatype event =
    Usage wstring bool
  | CannotCreateDir wstring
  | NoLnkFound wstring
  | NoFilesToArchive
  | CannotOpen wstring
  | Progress int wstring
  | Done int wstring

record world =
  console :: "event list"
  archives :: "wstring \<rightharpoonup> (wstring \<times> wstring) list"

text \<open>
  Modelled from the spec: the archive backend (minizip-ng) is not under src; main.c only
  calls it. Section 3 of the specification says of the path of an entry that its
  separators are normalized to forward slashes inside the archive: the name under which
  an entry is stored is the name handed to \<^verbatim>\<open>mz_zip_writer_add_file\<close> with every
  backslash written as a forward slash.
\<close>

definition archive_name :: "wstring \<Rightarrow> wstring" where
  "archive_name relUtf = map (\<lambda>c. if c = bslash then fslash else c) relUtf"

text \<open>The names of the entries of an archive, in the order in which they were added.\<close>

definition entry_names :: "(wstring \<times> wstring) list \<Rightarrow> wstring list" where
  "entry_names files = map (\<lambda>(fullUtf, relUtf). archive_name relUtf) files"

section \<open>collect\_entries\<close>

text \<open>
  Lines 53-92. The array \<^verbatim>\<open>*arr\<close> with its count \<^verbatim>\<open>*cnt\<close> is a list that grows at
  its end; the third argument is what the enumeration of \<^verbatim>\<open>curr_dir\*\<close> (lines 58-59)
  yields: the caller looks it up for the target, and for a child it is the listing that
  the tree holds below that child. Each \<^verbatim>\<open>continue\<close> of the source is a branch that
  goes on with the rest of the listing.
\<close>

fun collect_entries ::
    "wstring \<Rightarrow> wstring \<Rightarrow> dirent list option \<Rightarrow> FileEntry list \<Rightarrow> FileEntry list"
  and collect_loop ::
    "wstring \<Rightarrow> wstring \<Rightarrow> dirent list \<Rightarrow> FileEntry list \<Rightarrow> FileEntry list"
where
  "collect_entries base_dir curr_dir None arr = arr"
| "collect_entries base_dir curr_dir (Some ffds) arr = collect_loop base_dir curr_dir ffds arr"
| "collect_loop base_dir curr_dir [] arr = arr"
| "collect_loop base_dir curr_dir (Dirent name attrs sub # ffds) arr =
     (if name = L ''.'' \<or> name = L ''..'' then collect_loop base_dir curr_dir ffds arr
      else if attrs AND (FILE_ATTRIBUTE_HIDDEN OR FILE_ATTRIBUTE_SYSTEM) \<noteq> 0
        then collect_loop base_dir curr_dir ffds arr
      else if wcsicmp_eq name (L ''desktop.ini'') then collect_loop base_dir curr_dir ffds arr
      else
        let full_path = curr_dir @ [bslash] @ name;
            base_len = length base_dir;
            rel_part =
              (if take base_len full_path = base_dir \<and> base_len < length full_path \<and>
                  full_path ! base_len = bslash
               then drop (base_len + 1) full_path
               else name);
            arr1 = arr @ [\<lparr>full = full_path, rel = rel_part\<rparr>];
            arr2 =
              (if attrs AND FILE_ATTRIBUTE_DIRECTORY \<noteq> 0
               then collect_entries base_dir full_path sub arr1
               else arr1)
        in collect_loop base_dir curr_dir ffds arr2)"

section \<open>zip\_entries\<close>

text \<open>C's \<^verbatim>\<open>/\<close> on \<^verbatim>\<open>int\<close> truncates toward zero.\<close>

definition tdiv :: "int \<Rightarrow> int \<Rightarrow> int" where
  "tdiv a b = sgn a * sgn b * (\<bar>a\<bar> div \<bar>b\<bar>)"

text \<open>
  \<^verbatim>\<open>int pct = (i * 100) / count;\<close> with \<^verbatim>\<open>int\<close> of 32 bits: the product is
  taken in 32 bits (two's complement) and read as a signed value.
\<close>

definition pct_of :: "nat \<Rightarrow> nat \<Rightarrow> int" where
  "pct_of i count =
     tdiv (sint ((word_of_nat i :: 32 word) * 100)) (sint (word_of_nat count :: 32 word))"

record zip_run =
  out :: "event list"
  added :: "(wstring \<times> wstring) list"

text \<open>
  Lines 121-140, the loop \<^verbatim>\<open>for (int i = 0; i < count; i++)\<close> over
  \<^verbatim>\<open>entries[i]\<close>: the array and its count are one list, \<open>count\<close> is the length of the
  whole list and \<open>i\<close> the index of the head.
\<close>

fun zip_loop :: "env \<Rightarrow> nat \<Rightarrow> nat \<Rightarrow> FileEntry list \<Rightarrow> zip_run \<Rightarrow> zip_run" where
  "zip_loop e count i [] z = z"
| "zip_loop e count i (entry # entries) z =
     (let attr = GetFileAttributesW e (full entry) in
      if attr AND (FILE_ATTRIBUTE_HIDDEN OR FILE_ATTRIBUTE_SYSTEM) \<noteq> 0
        then zip_loop e count (Suc i) entries z
      else if (case wcsrchr (full entry) bslash of
                 Some k \<Rightarrow> wcsicmp_eq (drop (Suc k) (full entry)) (L ''desktop.ini'')
               | None \<Rightarrow> False)
        then zip_loop e count (Suc i) entries z
      else
        let z1 = z\<lparr>out := out z @ [Progress (pct_of i count) (rel entry)]\<rparr>;
            z2 = (if attr AND FILE_ATTRIBUTE_DIRECTORY = 0
                  then z1\<lparr>added := added z1 @ [(full entry, rel entry)]\<rparr>
                  else z1)
        in zip_loop e count (Suc i) entries z2)"

text \<open>
  Lines 112-144: the archive is opened, the loop runs, the completion line is printed
  and the archive is closed. The archive is the file that \<^verbatim>\<open>zip_path_w\<close> names.
\<close>

definition zip_entries :: "env \<Rightarrow> wstring \<Rightarrow> FileEntry list \<Rightarrow> world \<Rightarrow> world" where
  "zip_entries e zip_path_w entries w =
     (if \<not> mz_zip_writer_open_file e zip_path_w
      then w\<lparr>console := console w @ [CannotOpen zip_path_w]\<rparr>
      else
        let z = zip_loop e (length entries) 0 entries \<lparr>out = [], added = []\<rparr>
        in w\<lparr>console := console w @ out z @ [Done (int (length entries)) zip_path_w],
             archives := (archives w)(file_of_path e zip_path_w \<mapsto> added z)\<rparr>)"

section \<open>wmain\<close>

text \<open>The loop over the shortcuts of split mode (lines 177-189).\<close>

fun split_loop :: "env \<Rightarrow> wstring \<Rightarrow> wstring \<Rightarrow> dirent list \<Rightarrow> world \<Rightarrow> world" where
  "split_loop e source_folder output [] w = w"
| "split_loop e source_folder output (ffd # ffds) w =
     (let link_path = source_folder @ [bslash] @ cFileName ffd in
      case resolve_link e link_path of
        None \<Rightarrow> split_loop e source_folder output ffds w
      | Some target_dir \<Rightarrow>
          let name = link_name (cFileName ffd);
              temp = collect_entries target_dir target_dir
                       (FindFirstFileW e (target_dir @ [bslash] @ L ''*'')) [];
              zip_path = output @ [bslash] @ name @ L ''.zip''
          in split_loop e source_folder output ffds (zip_entries e zip_path temp w))"

text \<open>The loop over the shortcuts of single-archive mode (lines 197-213).\<close>

fun single_loop :: "env \<Rightarrow> wstring \<Rightarrow> dirent list \<Rightarrow> FileEntry list \<Rightarrow> FileEntry list" where
  "single_loop e source_folder [] entries = entries"
| "single_loop e source_folder (ffd # ffds) entries =
     (let link_path = source_folder @ [bslash] @ cFileName ffd in
      case resolve_link e link_path of
        None \<Rightarrow> single_loop e source_folder ffds entries
      | Some target_dir \<Rightarrow>
          let name = link_name (cFileName ffd);
              temp = collect_entries target_dir target_dir
                       (FindFirstFileW e (target_dir @ [bslash] @ L ''*'')) []
          in single_loop e source_folder ffds
               (entries @ map (\<lambda>t. \<lparr>full = full t, rel = name @ [bslash] @ rel t\<rparr>) temp))"

text \<open>
  Lines 146-221. \<^verbatim>\<open>argv\<close> is \<open>argv0 # args\<close>, so \<^verbatim>\<open>argc\<close> is
  \<open>1 + length args\<close>; the result is the exit code and the world after the run.
\<close>

definition wmain :: "env \<Rightarrow> wstring \<Rightarrow> wstring list \<Rightarrow> world \<Rightarrow> int \<times> world" where
  "wmain e argv0 args w =
     (let argc = 1 + length args;
          split = (argc > 1 \<and> args ! 0 = L ''--split'');
          arg = (if split then 2 else 1)
      in if (\<not> split \<and> argc \<noteq> 3) \<or> (split \<and> argc \<noteq> 4)
         then (1, w\<lparr>console := console w @ [Usage argv0 split]\<rparr>)
         else
           let source_folder = (argv0 # args) ! arg;
               output = (argv0 # args) ! (arg + 1)
           in if split then
                (case CreateDirectoryW e output of
                   Some err \<Rightarrow>
                     if err \<noteq> ERROR_ALREADY_EXISTS
                     then (1, w\<lparr>console := console w @ [CannotCreateDir output]\<rparr>)
                     else
                       (case FindFirstFileW e (source_folder @ [bslash] @ L ''*.lnk'') of
                          None \<Rightarrow> (1, w\<lparr>console := console w @ [NoLnkFound source_folder]\<rparr>)
                        | Some ffds \<Rightarrow> (0, split_loop e source_folder output ffds w))
                 | None \<Rightarrow>
                     (case FindFirstFileW e (source_folder @ [bslash] @ L ''*.lnk'') of
                        None \<Rightarrow> (1, w\<lparr>console := console w @ [NoLnkFound source_folder]\<rparr>)
                      | Some ffds \<Rightarrow> (0, split_loop e source_folder output ffds w)))
              else
                let entries =
                      (case FindFirstFileW e (source_folder @ [bslash] @ L ''*.lnk'') of
                         None \<Rightarrow> []
                       | Some ffds \<Rightarrow> single_loop e source_folder ffds [])
                in if length entries = 0
                   then (1, w\<lparr>console := console w @ [NoFilesToArchive]\<rparr>)
                   else (0, zip_entries e output entries w))"

section \<open>Notions of the specification and of the proofs\<close>

text \<open>
  PathFilter of the specification (section 4.1), in its words: three exclusion rules
  checked in order, the first match wins, everything else is included.
\<close>

definition PathFilter_include :: "wstring \<Rightarrow> DWORD \<Rightarrow> bool" where
  "PathFilter_include name attrs =
     (if name = L ''.'' \<or> name = L ''..'' then False
      else if attrs AND FILE_ATTRIBUTE_HIDDEN \<noteq> 0 \<or> attrs AND FILE_ATTRIBUTE_SYSTEM \<noteq> 0
        then False
      else if wcsicmp_eq name (L ''desktop.ini'') then False
      else True)"

text \<open>
  The walk without its accumulator: the entries of the children that pass PathFilter,
  each directory followed by the entries below it. \<open>cdir\<close> is the directory walked and
  \<open>pre\<close> its path relative to the target, with a trailing separator unless empty.
  Lemma \<open>collect_walk\<close> proves that \<open>collect_entries\<close> computes exactly this.
\<close>

fun walk :: "wstring \<Rightarrow> wstring \<Rightarrow> dirent list \<Rightarrow> FileEntry list" where
  "walk cdir pre [] = []"
| "walk cdir pre (Dirent name attrs sub # ds) =
     (if PathFilter_include name attrs
      then \<lparr>full = cdir @ bslash # name, rel = pre @ name\<rparr> #
           (if attrs AND FILE_ATTRIBUTE_DIRECTORY \<noteq> 0
            then (case sub of
                    None \<Rightarrow> []
                  | Some l \<Rightarrow> walk (cdir @ bslash # name) (pre @ name @ [bslash]) l)
            else [])
      else []) @ walk cdir pre ds"

text \<open>
  The paths, relative to the target, of the regular files that PathFilter does not
  exclude (specification, section 8): nothing below an excluded directory is reached.
\<close>

fun regular_files :: "wstring \<Rightarrow> dirent list \<Rightarrow> wstring list" where
  "regular_files pre [] = []"
| "regular_files pre (Dirent name attrs sub # ds) =
     (if \<not> PathFilter_include name attrs then []
      else if attrs AND FILE_ATTRIBUTE_DIRECTORY \<noteq> 0
        then (case sub of
                None \<Rightarrow> []
              | Some l \<Rightarrow> regular_files (pre @ name @ [bslash]) l)
      else [pre @ name]) @ regular_files pre ds"

text \<open>
  Names as a Windows directory listing reports them: not empty, and free of the two
  separators and of the colon.
\<close>

definition valid_name :: "wstring \<Rightarrow> bool" where
  "valid_name name =
     (name \<noteq> [] \<and> bslash \<notin> set name \<and> fslash \<notin> set name \<and> colon \<notin> set name)"

fun valid_tree :: "dirent list \<Rightarrow> bool" where
  "valid_tree [] = True"
| "valid_tree (Dirent name attrs sub # ds) =
     (valid_name name \<and> (case sub of None \<Rightarrow> True | Some l \<Rightarrow> valid_tree l) \<and> valid_tree ds)"

text \<open>
  \<^verbatim>\<open>GetFileAttributesW\<close> agrees with the listing: for every child that passes
  PathFilter, the attributes of its path are those the enumeration reported.
\<close>

fun attrs_agree :: "(wstring \<Rightarrow> DWORD) \<Rightarrow> wstring \<Rightarrow> dirent list \<Rightarrow> bool" where
  "attrs_agree gfa cdir [] = True"
| "attrs_agree gfa cdir (Dirent name attrs sub # ds) =
     ((if PathFilter_include name attrs
       then gfa (cdir @ bslash # name) = attrs \<and>
            (case sub of None \<Rightarrow> True | Some l \<Rightarrow> attrs_agree gfa (cdir @ bslash # name) l)
       else True) \<and>
      attrs_agree gfa cdir ds)"

text \<open>
  The two \<^verbatim>\<open>continue\<close> conditions of the loop of \<open>zip_entries\<close>, and the condition
  under which an entry reaches \<^verbatim>\<open>mz_zip_writer_add_file\<close>.
\<close>

definition zip_skips :: "env \<Rightarrow> FileEntry \<Rightarrow> bool" where
  "zip_skips e entry =
     (GetFileAttributesW e (full entry) AND (FILE_ATTRIBUTE_HIDDEN OR FILE_ATTRIBUTE_SYSTEM) \<noteq> 0 \<or>
      (case wcsrchr (full entry) bslash of
         Some k \<Rightarrow> wcsicmp_eq (drop (Suc k) (full entry)) (L ''desktop.ini'')
       | None \<Rightarrow> False))"

definition zip_adds :: "env \<Rightarrow> FileEntry \<Rightarrow> bool" where
  "zip_adds e entry =
     (\<not> zip_skips e entry \<and> GetFileAttributesW e (full entry) AND FILE_ATTRIBUTE_DIRECTORY = 0)"

definition written :: "env \<Rightarrow> FileEntry list \<Rightarrow> (wstring \<times> wstring) list" where
  "written e entries = map (\<lambda>entry. (full entry, rel entry)) (filter (zip_adds e) entries)"

text \<open>The progress lines of one run of the loop of \<open>zip_entries\<close>, by index.\<close>

definition progress_lines :: "env \<Rightarrow> nat \<Rightarrow> nat \<Rightarrow> FileEntry list \<Rightarrow> event list" where
  "progress_lines e n i entries =
     map (\<lambda>(j, entry). Progress (pct_of j n) (rel entry))
       (filter (\<lambda>(j, entry). \<not> zip_skips e entry) (zip [i..<i + length entries] entries))"

text \<open>
  The last component of a path, and the files the specification keeps out of every
  archive: hidden files, system files and \<^verbatim>\<open>desktop.ini\<close> under any spelling of
  its letters.
\<close>

definition file_name :: "wstring \<Rightarrow> wstring" where
  "file_name path = (case wcsrchr path bslash of None \<Rightarrow> path | Some k \<Rightarrow> drop (Suc k) path)"

definition excluded_file :: "env \<Rightarrow> wstring \<Rightarrow> bool" where
  "excluded_file e path =
     (GetFileAttributesW e path AND FILE_ATTRIBUTE_HIDDEN \<noteq> 0 \<or>
      GetFileAttributesW e path AND FILE_ATTRIBUTE_SYSTEM \<noteq> 0 \<or>
      wcsicmp_eq (file_name path) (L ''desktop.ini''))"

text \<open>
  Every archive file of \<open>w\<close> is as it was in \<open>w0\<close> or holds no excluded file.
\<close>

definition only_clean :: "env \<Rightarrow> world \<Rightarrow> world \<Rightarrow> bool" where
  "only_clean e w0 w =
     (\<forall>p files. archives w p = Some files \<longrightarrow>
        archives w0 p = Some files \<or> (\<forall>(f, r) \<in> set files. \<not> excluded_file e f))"

text \<open>
  A name for the archive that is relative: not empty, no leading backslash, no colon (so
  no drive letter) and no forward slash anywhere.
\<close>

definition relative_path :: "wstring \<Rightarrow> bool" where
  "relative_path r = (r \<noteq> [] \<and> hd r \<noteq> bslash \<and> colon \<notin> set r \<and> fslash \<notin> set r)"

text \<open>
  A name inside the archive in the form that section 3 of the specification asks for:
  not empty, no leading forward slash, no colon (so no drive letter) and no backslash
  anywhere, so that every separator is a forward slash.
\<close>

definition normalized_path :: "wstring \<Rightarrow> bool" where
  "normalized_path n = (n \<noteq> [] \<and> hd n \<noteq> fslash \<and> colon \<notin> set n \<and> bslash \<notin> set n)"

text \<open>A listing, when the enumeration succeeds, holds valid names throughout.\<close>

definition valid_listing :: "dirent list option \<Rightarrow> bool" where
  "valid_listing l = (case l of None \<Rightarrow> True | Some ds \<Rightarrow> valid_tree ds)"

text \<open>The archive path of split mode for a shortcut file name (line 186).\<close>

definition zip_path_of :: "wstring \<Rightarrow> wstring \<Rightarrow> wstring" where
  "zip_path_of output lnk = output @ [bslash] @ link_name lnk @ L ''.zip''"

text \<open>What \<open>zip_entries\<close> adds for the tree collected from one target.\<close>

definition target_files :: "env \<Rightarrow> wstring \<Rightarrow> (wstring \<times> wstring) list" where
  "target_files e t =
     written e (collect_entries t t (FindFirstFileW e (t @ [bslash] @ L ''*'')) [])"

text \<open>
  The shortcut resolves, and its archive path in split mode opens and names the file
  \<open>q\<close>.
\<close>

definition produces :: "env \<Rightarrow> wstring \<Rightarrow> wstring \<Rightarrow> wstring \<Rightarrow> dirent \<Rightarrow> bool" where
  "produces e source_folder output q ffd =
     (case resolve_link e (source_folder @ [bslash] @ cFileName ffd) of
        None \<Rightarrow> False
      | Some t \<Rightarrow>
          file_of_path e (zip_path_of output (cFileName ffd)) = q \<and>
          mz_zip_writer_open_file e (zip_path_of output (cFileName ffd)))"

text \<open>What the archive of a shortcut holds in split mode, once written.\<close>

definition shortcut_files :: "env \<Rightarrow> wstring \<Rightarrow> dirent \<Rightarrow> (wstring \<times> wstring) list" where
  "shortcut_files e source_folder ffd =
     (case resolve_link e (source_folder @ [bslash] @ cFileName ffd) of
        None \<Rightarrow> []
      | Some t \<Rightarrow> target_files e t)"

section \<open>Example data\<close>

text \<open>
  A target \<^verbatim>\<open>T\<close> with a subdirectory \<^verbatim>\<open>sub\<close> (holding \<^verbatim>\<open>a.txt\<close> and
  \<^verbatim>\<open>Desktop.INI\<close>), a hidden file \<^verbatim>\<open>h.txt\<close> and a file \<^verbatim>\<open>b.txt\<close>.
\<close>

definition tree_ex :: "dirent list" where
  "tree_ex =
     [Dirent (L ''.'') 0x10 None,
      Dirent (L ''..'') 0x10 None,
      Dirent (L ''sub'') 0x10
        (Some [Dirent (L ''.'') 0x10 None,
               Dirent (L ''..'') 0x10 None,
               Dirent (L ''a.txt'') 0x20 None,
               Dirent (L ''Desktop.INI'') 0x20 None]),
      Dirent (L ''h.txt'') 0x22 None,
      Dirent (L ''b.txt'') 0x20 None]"

text \<open>
  A machine with five folders of shortcuts.
  \<^item> \<^verbatim>\<open>S\<close> holds \<^verbatim>\<open>A.lnk\<close> (to \<^verbatim>\<open>dirA\<close>, which holds \<^verbatim>\<open>x.txt\<close>),
    \<^verbatim>\<open>Broken.lnk\<close> (which does not resolve) and \<^verbatim>\<open>B.lnk\<close> (to \<^verbatim>\<open>dirB\<close>, which
    holds \<^verbatim>\<open>y.txt\<close>).
  \<^item> \<^verbatim>\<open>S2\<close> holds \<^verbatim>\<open>A.lnk\<close> (to \<^verbatim>\<open>dirA\<close>) and a second shortcut whose name
    is \<^verbatim>\<open>A\<close> followed by the suffix \<open>suf\<close> (to \<^verbatim>\<open>dirB\<close>).
  \<^item> \<^verbatim>\<open>S3\<close> holds \<^verbatim>\<open>Docs.lnk\<close> (to \<^verbatim>\<open>T\<close>, which is \<open>tree_ex\<close>).
  \<^item> \<^verbatim>\<open>S4\<close> holds \<^verbatim>\<open>A.lnk\<close> (to \<^verbatim>\<open>dirA\<close>) and a shortcut whose name is a
    small \<^verbatim>\<open>a\<close> followed by the suffix \<open>suf\<close> (to \<^verbatim>\<open>dirB\<close>).
  \<^item> \<^verbatim>\<open>S5\<close> holds a shortcut named \<^verbatim>\<open>.lnk\<close> (to \<^verbatim>\<open>dirA\<close>).

  Every archive opens, the output directory exists already, and two paths name the same
  file when they differ at most in the case of their letters A to Z.
\<close>

definition env_ex :: env where
  "env_ex =
     \<lparr>FindFirstFileW = (\<lambda>p.
        if p = L ''S'' @ [bslash] @ L ''*.lnk''
          then Some [Dirent (L ''A.lnk'') 0x20 None,
                     Dirent (L ''Broken.lnk'') 0x20 None,
                     Dirent (L ''B.lnk'') 0x20 None]
        else if p = L ''S2'' @ [bslash] @ L ''*.lnk''
          then Some [Dirent (L ''A.lnk'') 0x20 None,
                     Dirent (L ''A'' @ suf @ L ''.lnk'') 0x20 None]
        else if p = L ''S3'' @ [bslash] @ L ''*.lnk''
          then Some [Dirent (L ''Docs.lnk'') 0x20 None]
        else if p = L ''S4'' @ [bslash] @ L ''*.lnk''
          then Some [Dirent (L ''A.lnk'') 0x20 None,
                     Dirent (L ''a'' @ suf @ L ''.lnk'') 0x20 None]
        else if p = L ''S5'' @ [bslash] @ L ''*.lnk''
          then Some [Dirent (L ''.lnk'') 0x20 None]
        else if p = L ''dirA'' @ [bslash] @ L ''*''
          then Some [Dirent (L ''.'') 0x10 None,
                     Dirent (L ''..'') 0x10 None,
                     Dirent (L ''x.txt'') 0x20 None]
        else if p = L ''dirB'' @ [bslash] @ L ''*''
          then Some [Dirent (L ''.'') 0x10 None,
                     Dirent (L ''..'') 0x10 None,
                     Dirent (L ''y.txt'') 0x20 None]
        else if p = L ''T'' @ [bslash] @ L ''*'' then Some tree_ex
        else None),
      resolve_link = (\<lambda>p.
        if p = L ''S'' @ [bslash] @ L ''A.lnk'' then Some (L ''dirA'')
        else if p = L ''S'' @ [bslash] @ L ''B.lnk'' then Some (L ''dirB'')
        else if p = L ''S2'' @ [bslash] @ L ''A.lnk'' then Some (L ''dirA'')
        else if p = L ''S2'' @ [bslash] @ L ''A'' @ suf @ L ''.lnk'' then Some (L ''dirB'')
        else if p = L ''S3'' @ [bslash] @ L ''Docs.lnk'' then Some (L ''T'')
        else if p = L ''S4'' @ [bslash] @ L ''A.lnk'' then Some (L ''dirA'')
        else if p = L ''S4'' @ [bslash] @ L ''a'' @ suf @ L ''.lnk'' then Some (L ''dirB'')
        else if p = L ''S5'' @ [bslash] @ L ''.lnk'' then Some (L ''dirA'')
        else None),
      GetFileAttributesW = (\<lambda>p.
        if p = L ''T'' @ [bslash] @ L ''sub'' then 0x10
        else if p = L ''T'' @ [bslash] @ L ''h.txt'' then 0x22
        else 0x20),
      CreateDirectoryW = (\<lambda>p. Some ERROR_ALREADY_EXISTS),
      mz_zip_writer_open_file = (\<lambda>p. True),
      file_of_path = map towlower\<rparr>"

definition world0 :: world where
  "world0 = \<lparr>console = [], archives = Map.empty\<rparr>"

section \<open>Facts about the string functions\<close>

lemma wcsrchr_None: "wcsrchr s c = None \<longleftrightarrow> c \<notin> set s"
  by (induction s) (auto split: option.splits)

lemma wcsrchr_append_absent:
  "c \<notin> set ext \<Longrightarrow> wcsrchr (s @ c # ext) c = Some (length s)"
  by (induction s) (auto simp: wcsrchr_None split: option.splits)

lemma length_suf: "length suf = 8"
  by (simp add: suf_def)

lemma link_name_stem:
  assumes "dot \<notin> set ext"
  shows "link_name (stem @ dot # ext) =
           (if length stem > length suf \<and> drop (length stem - length suf) stem = suf
            then take (length stem - length suf) stem else stem)"
  using assms by (simp add: link_name_def wcsrchr_append_absent Let_def)

section \<open>The walk\<close>

lemma hidden_or_system:
  "(a AND (FILE_ATTRIBUTE_HIDDEN OR FILE_ATTRIBUTE_SYSTEM) \<noteq> 0) \<longleftrightarrow>
   (a AND FILE_ATTRIBUTE_HIDDEN \<noteq> 0 \<or> a AND FILE_ATTRIBUTE_SYSTEM \<noteq> 0)"
  by (simp add: bit.conj_disj_distrib or_eq_0_iff)

lemma rel_part_under:
  assumes "cdir @ [bslash] = base @ bslash # pre"
  shows "take (length base) (cdir @ [bslash] @ name) = base"
    and "length base < length (cdir @ [bslash] @ name)"
    and "(cdir @ [bslash] @ name) ! length base = bslash"
    and "drop (length base + 1) (cdir @ [bslash] @ name) = pre @ name"
proof -
  have eq: "cdir @ [bslash] @ name = base @ bslash # (pre @ name)"
    using assms by (metis append.assoc append_Cons)
  show "take (length base) (cdir @ [bslash] @ name) = base" unfolding eq by simp
  show "length base < length (cdir @ [bslash] @ name)" unfolding eq by simp
  show "(cdir @ [bslash] @ name) ! length base = bslash" unfolding eq by (simp add: nth_append)
  show "drop (length base + 1) (cdir @ [bslash] @ name) = pre @ name" unfolding eq by simp
qed

lemma collect_walk:
  "(\<forall>pre. cdir @ [bslash] = base @ bslash # pre \<longrightarrow>
      collect_entries base cdir l arr = arr @ (case l of None \<Rightarrow> [] | Some ds \<Rightarrow> walk cdir pre ds))"
  "(\<forall>pre. cdir' @ [bslash] = base' @ bslash # pre \<longrightarrow>
      collect_loop base' cdir' ds arr' = arr' @ walk cdir' pre ds)"
proof (induction base cdir l arr and base' cdir' ds arr' rule: collect_entries_collect_loop.induct)
  case (1 base_dir curr_dir arr)
  then show ?case by simp
next
  case (2 base_dir curr_dir ffds arr)
  then show ?case by simp
next
  case (3 base_dir curr_dir arr)
  then show ?case by simp
next
  case (4 base_dir curr_dir name attrs sub ffds arr)
  show ?case
  proof (intro allI impI)
    fix pre assume u: "curr_dir @ [bslash] = base_dir @ bslash # pre"
    have u': "(curr_dir @ [bslash] @ name) @ [bslash] = base_dir @ bslash # (pre @ name @ [bslash])"
      using u by (metis append.assoc append_Cons)
    show "collect_loop base_dir curr_dir (Dirent name attrs sub # ffds) arr =
          arr @ walk curr_dir pre (Dirent name attrs sub # ffds)"
    proof (cases "PathFilter_include name attrs")
      case False
      then show ?thesis using 4 u
        by (auto simp: PathFilter_include_def hidden_or_system split: if_splits)
    next
      case True
      then have inc: "\<not> (name = L ''.'' \<or> name = L ''..'')"
        "\<not> attrs AND (FILE_ATTRIBUTE_HIDDEN OR FILE_ATTRIBUTE_SYSTEM) \<noteq> 0"
        "\<not> wcsicmp_eq name (L ''desktop.ini'')"
        by (auto simp: PathFilter_include_def hidden_or_system split: if_splits)
      let ?full_path = "curr_dir @ [bslash] @ name"
      let ?arr1 = "arr @ [\<lparr>full = ?full_path, rel = pre @ name\<rparr>]"
      have relp: "(if take (length base_dir) (curr_dir @ [bslash] @ name) = base_dir \<and>
                      length base_dir < length (curr_dir @ [bslash] @ name) \<and>
                      (curr_dir @ [bslash] @ name) ! length base_dir = bslash
                   then drop (length base_dir + 1) (curr_dir @ [bslash] @ name)
                   else name) = pre @ name"
        by (simp only: rel_part_under[OF u] simp_thms if_True)
      have step: "collect_loop base_dir curr_dir (Dirent name attrs sub # ffds) arr =
                  collect_loop base_dir curr_dir ffds
                    (if attrs AND FILE_ATTRIBUTE_DIRECTORY \<noteq> 0
                     then collect_entries base_dir ?full_path sub ?arr1 else ?arr1)"
        by (simp only: collect_loop.simps inc if_False Let_def relp)
      have ih2: "collect_loop base_dir curr_dir ffds
                    (if attrs AND FILE_ATTRIBUTE_DIRECTORY \<noteq> 0
                     then collect_entries base_dir ?full_path sub ?arr1 else ?arr1) =
                 (if attrs AND FILE_ATTRIBUTE_DIRECTORY \<noteq> 0
                     then collect_entries base_dir ?full_path sub ?arr1 else ?arr1) @ walk curr_dir pre ffds"
        using 4(5)[OF inc refl refl refl refl refl] u
        by (simp only: relp)
      have ih1: "attrs AND FILE_ATTRIBUTE_DIRECTORY \<noteq> 0 \<Longrightarrow>
                 collect_entries base_dir ?full_path sub ?arr1 =
                 ?arr1 @ (case sub of None \<Rightarrow> [] | Some l \<Rightarrow> walk ?full_path (pre @ name @ [bslash]) l)"
        using 4(4)[OF inc refl refl refl refl] u'
        by (simp only: relp) auto
      show ?thesis
        unfolding step ih2
        using True ih1 by (simp split: option.splits)
    qed
  qed
qed


subsection \<open>Claim C4: the display name\<close>

text \<open>
  Claim C4 reads the suffix as \<^verbatim>\<open>" - Shortcut"\<close> and expects the name
  \<^verbatim>\<open>Photos\<close> for \<^verbatim>\<open>Photos - Shortcut.lnk\<close>. The literal of the code is \<open>suf\<close>, so
  that file keeps the name \<^verbatim>\<open>Photos - Shortcut\<close>.
\<close>

theorem link_name_shortcut_counterexample:
  "link_name (L ''Photos - Shortcut.lnk'') \<noteq> L ''Photos'' \<and>
   link_name (L ''Photos - Shortcut.lnk'') = L ''Photos - Shortcut''"
  by (simp add: link_name_def L_def dot_def suf_def)

text \<open>
  Claim C4, as amended. For a file name \<open>stem.ext\<close>, where \<open>ext\<close> holds no dot, the
  display name is \<open>stem\<close> without the literal suffix \<open>suf\<close> of the code when \<open>stem\<close> is a
  non-empty text followed by \<open>suf\<close>, and \<open>stem\<close> itself in every other case (a stem that
  is exactly \<open>suf\<close> stays as it is).
\<close>

theorem link_name_derivation:
  assumes "dot \<notin> set ext"
  shows "(b \<noteq> [] \<longrightarrow> link_name (b @ suf @ dot # ext) = b) \<and>
         ((\<nexists>c. c \<noteq> [] \<and> stem = c @ suf) \<longrightarrow> link_name (stem @ dot # ext) = stem)"
proof (intro conjI impI)
  assume "b \<noteq> []"
  then show "link_name (b @ suf @ dot # ext) = b"
    using link_name_stem [OF assms, of "b @ suf"] by simp
next
  assume none: "\<nexists>c. c \<noteq> [] \<and> stem = c @ suf"
  have "\<not> (length stem > length suf \<and> drop (length stem - length suf) stem = suf)"
  proof
    assume h: "length stem > length suf \<and> drop (length stem - length suf) stem = suf"
    then have "stem = take (length stem - length suf) stem @ suf"
      by (metis append_take_drop_id)
    moreover from h have "take (length stem - length suf) stem \<noteq> []"
      by auto
    ultimately show False
      using none by blast
  qed
  then show "link_name (stem @ dot # ext) = stem"
    unfolding link_name_stem [OF assms] by (rule if_not_P)
qed

theorem link_name_derivation_witness:
  "dot \<notin> set (L ''lnk'') \<and> L ''Photos'' \<noteq> [] \<and>
   link_name (L ''Photos'' @ suf @ dot # L ''lnk'') = L ''Photos'' \<and>
   (\<nexists>c. c \<noteq> [] \<and> suf = c @ suf) \<and>
   link_name (suf @ dot # L ''lnk'') = suf"
proof -
  have h: "dot \<notin> set (L ''lnk'')"
    by (simp add: L_def dot_def)
  have n: "L ''Photos'' \<noteq> []"
    by (simp add: L_def)
  have m: "\<nexists>c. c \<noteq> [] \<and> suf = c @ suf"
    by simp
  from link_name_derivation [OF h, of "L ''Photos''" suf] n m h show ?thesis
    by blast
qed

section \<open>The loop of zip\_entries\<close>

lemma hidden_or_system_0:
  "(a AND (FILE_ATTRIBUTE_HIDDEN OR FILE_ATTRIBUTE_SYSTEM) = 0) \<longleftrightarrow>
   (a AND FILE_ATTRIBUTE_HIDDEN = 0 \<and> a AND FILE_ATTRIBUTE_SYSTEM = 0)"
  using hidden_or_system [of a] by blast

lemma zip_loop_step:
  "zip_loop e n i (entry # entries) z =
     zip_loop e n (Suc i) entries
       (if zip_skips e entry then z
        else \<lparr>out = out z @ [Progress (pct_of i n) (rel entry)],
              added = added z @ (if zip_adds e entry then [(full entry, rel entry)] else [])\<rparr>)"
  by (cases z) (simp add: zip_skips_def zip_adds_def Let_def)

lemma zip_loop_added:
  "added (zip_loop e n i entries z) = added z @ written e entries"
proof (induction entries arbitrary: i z)
  case Nil
  then show ?case by (simp add: written_def)
next
  case (Cons entry entries)
  show ?case
    unfolding zip_loop_step Cons.IH
    by (simp add: written_def zip_adds_def)
qed

lemma progress_lines_Nil: "progress_lines e n i [] = []"
  by (simp add: progress_lines_def)

lemma progress_lines_Cons:
  "progress_lines e n i (entry # entries) =
     (if zip_skips e entry then [] else [Progress (pct_of i n) (rel entry)]) @
     progress_lines e n (Suc i) entries"
proof -
  have u: "[i..<i + length (entry # entries)] = i # [Suc i..<Suc i + length entries]"
    by (simp add: upt_conv_Cons del: upt_Suc)
  show ?thesis
    unfolding progress_lines_def u by simp
qed

lemma zip_loop_out:
  "out (zip_loop e n i entries z) = out z @ progress_lines e n i entries"
proof (induction entries arbitrary: i z)
  case Nil
  then show ?case by (simp add: progress_lines_Nil)
next
  case (Cons entry entries)
  show ?case
    unfolding zip_loop_step Cons.IH progress_lines_Cons
    by simp
qed

lemma zip_entries_closed:
  "zip_entries e p entries w = w\<lparr>console := console w @ [CannotOpen p]\<rparr>"
  if "\<not> mz_zip_writer_open_file e p"
  using that by (simp add: zip_entries_def)

lemma zip_entries_open:
  "zip_entries e p entries w =
     w\<lparr>console := console w @ progress_lines e (length entries) 0 entries @
                    [Done (int (length entries)) p],
       archives := (archives w)(file_of_path e p \<mapsto> written e entries)\<rparr>"
  if "mz_zip_writer_open_file e p"
  using that by (simp add: zip_entries_def zip_loop_out zip_loop_added Let_def)

lemma written_Nil: "written e [] = []"
  by (simp add: written_def)

lemma written_Cons:
  "written e (entry # entries) =
     (if zip_adds e entry then [(full entry, rel entry)] else []) @ written e entries"
  by (simp add: written_def)

lemma written_append: "written e (xs @ ys) = written e xs @ written e ys"
  by (simp add: written_def)

lemma walk_written:
  assumes "valid_tree ds" and "attrs_agree (GetFileAttributesW e) cdir ds"
  shows "map snd (written e (walk cdir pre ds)) = regular_files pre ds"
  using assms
proof (induction cdir pre ds rule: walk.induct)
  case (1 cdir pre)
  then show ?case by (simp add: written_Nil written_Cons written_append)
next
  case (2 cdir pre name attrs sub ds)
  show ?case
  proof (cases "PathFilter_include name attrs")
    case False
    then show ?thesis using "2.IH"(2) "2.prems" by (simp add: written_Nil written_Cons written_append)
  next
    case True
    let ?en = "\<lparr>full = cdir @ bslash # name, rel = pre @ name\<rparr>"
    from "2.prems" True have gfa: "GetFileAttributesW e (cdir @ bslash # name) = attrs"
      and nm: "bslash \<notin> set name" by (auto simp: valid_name_def)
    from True have hs: "attrs AND (FILE_ATTRIBUTE_HIDDEN OR FILE_ATTRIBUTE_SYSTEM) = 0"
      and ini: "\<not> wcsicmp_eq name (L ''desktop.ini'')"
      by (auto simp: PathFilter_include_def hidden_or_system_0 split: if_splits)
    have skip: "\<not> zip_skips e ?en"
      using gfa hs ini nm by (simp add: zip_skips_def wcsrchr_append_absent)
    have adds: "zip_adds e ?en \<longleftrightarrow> attrs AND FILE_ATTRIBUTE_DIRECTORY = 0"
      using skip gfa by (simp add: zip_adds_def)
    have rest: "map snd (written e (walk cdir pre ds)) = regular_files pre ds"
      using "2.IH"(2) "2.prems" by simp
    show ?thesis
    proof (cases "attrs AND FILE_ATTRIBUTE_DIRECTORY \<noteq> 0")
      case dir: True
      show ?thesis
      proof (cases sub)
        case None
        then show ?thesis using True dir adds rest by (simp add: written_Nil written_Cons written_append)
      next
        case (Some l)
        have "map snd (written e (walk (cdir @ bslash # name) (pre @ name @ [bslash]) l)) =
              regular_files (pre @ name @ [bslash]) l"
          using "2.IH"(1)[OF True dir Some] "2.prems" True Some by simp
        then show ?thesis using True dir adds rest Some by (simp add: written_Nil written_Cons written_append)
      qed
    next
      case False
      then show ?thesis using True adds rest by (simp add: written_Nil written_Cons written_append)
    qed
  qed
qed

lemma collect_entries_top:
  "collect_entries target target l [] = (case l of None \<Rightarrow> [] | Some ds \<Rightarrow> walk target [] ds)"
  using collect_walk(1) [of target target l "[]"] by simp

lemma walk_head:
  "PathFilter_include name attrs \<Longrightarrow>
   \<lparr>full = cdir @ bslash # name, rel = pre @ name\<rparr>
     \<in> set (walk cdir pre (Dirent name attrs sub # ds))"
  apply (subst walk.simps)
  apply (simp only: if_True)
  apply (simp only: set_append set_simps Un_iff insert_iff simp_thms)
  done

lemma walk_tail:
  "x \<in> set (walk cdir pre ds) \<Longrightarrow> x \<in> set (walk cdir pre (Dirent name attrs sub # ds))"
  apply (subst walk.simps)
  apply (simp only: set_append Un_iff simp_thms)
  done

lemma walk_child:
  "d \<in> set ds \<Longrightarrow> PathFilter_include (cFileName d) (dwFileAttributes d) \<Longrightarrow>
   \<lparr>full = cdir @ bslash # cFileName d, rel = pre @ cFileName d\<rparr> \<in> set (walk cdir pre ds)"
proof (induction ds)
  case Nil
  then show ?case by simp
next
  case (Cons a ds)
  obtain name attrs sub where a: "a = Dirent name attrs sub"
    by (cases a)
  show ?case
  proof (cases "d = a")
    case True
    from Cons.prems(2) have "PathFilter_include name attrs"
      unfolding True a by simp
    then show ?thesis
      unfolding True a dirent.sel by (rule walk_head)
  next
    case False
    with Cons.prems have "d \<in> set ds"
      by simp
    with Cons.IH Cons.prems(2) a show ?thesis
      using walk_tail by blast
  qed
qed

lemma written_no_directory:
  "(f, r) \<in> set (written e entries) \<Longrightarrow> GetFileAttributesW e f AND FILE_ATTRIBUTE_DIRECTORY = 0"
  by (auto simp: written_def zip_adds_def)

text \<open>The definitions that evaluate the example data.\<close>

lemmas ex_simps = tree_ex_def env_ex_def world0_def L_def bslash_def fslash_def colon_def dot_def suf_def
  wcsicmp_eq_def towlower_def
  FILE_ATTRIBUTE_HIDDEN_def FILE_ATTRIBUTE_SYSTEM_def FILE_ATTRIBUTE_DIRECTORY_def ERROR_ALREADY_EXISTS_def
  valid_name_def PathFilter_include_def

subsection \<open>Claim C1: what is collected and what is written\<close>

text \<open>
  Claim C1 says that \<open>collect_entries\<close> emits entries for regular files only. The code
  appends an entry for every child that passes the filter before it looks at the
  directory bit: in the example tree the directory \<^verbatim>\<open>sub\<close> is an entry of its own,
  ahead of the file below it.
\<close>

theorem collect_directory_entry_counterexample:
  "map rel (collect_entries (L ''T'') (L ''T'') (Some tree_ex) []) =
     [L ''sub'', L ''sub'' @ [bslash] @ L ''a.txt'', L ''b.txt''] \<and>
   GetFileAttributesW env_ex (L ''T'' @ [bslash] @ L ''sub'') AND FILE_ATTRIBUTE_DIRECTORY \<noteq> 0"
  by (simp add: tree_ex_def env_ex_def L_def bslash_def wcsicmp_eq_def towlower_def
      FILE_ATTRIBUTE_HIDDEN_def FILE_ATTRIBUTE_SYSTEM_def FILE_ATTRIBUTE_DIRECTORY_def)

text \<open>
  Claim C1, as amended. \<open>collect_entries\<close> records every child that passes PathFilter,
  directory or file. When the names are those of a directory listing and
  \<^verbatim>\<open>GetFileAttributesW\<close> agrees with the listing, the names that \<open>zip_entries\<close> adds
  to an archive that opens are exactly the paths of the regular files that PathFilter
  does not exclude, relative to the target and joined by backslashes, in the order of
  the walk; no added file has the directory bit.
\<close>

theorem collect_zip_regular_files:
  assumes "valid_tree ds"
    and "attrs_agree (GetFileAttributesW e) target ds"
    and "mz_zip_writer_open_file e p"
  shows "(\<forall>d \<in> set ds. PathFilter_include (cFileName d) (dwFileAttributes d) \<longrightarrow>
            \<lparr>full = target @ bslash # cFileName d, rel = cFileName d\<rparr>
              \<in> set (collect_entries target target (Some ds) [])) \<and>
         (\<exists>files. archives (zip_entries e p (collect_entries target target (Some ds) []) w)
                          (file_of_path e p) = Some files \<and>
                  map snd files = regular_files [] ds \<and>
                  (\<forall>(f, r) \<in> set files.
                      GetFileAttributesW e f AND FILE_ATTRIBUTE_DIRECTORY = 0))"
proof (intro conjI ballI impI)
  fix d assume "d \<in> set ds" "PathFilter_include (cFileName d) (dwFileAttributes d)"
  then show "\<lparr>full = target @ bslash # cFileName d, rel = cFileName d\<rparr>
               \<in> set (collect_entries target target (Some ds) [])"
    using walk_child [of d ds target "[]"] by (simp add: collect_entries_top)
next
  let ?files = "written e (walk target [] ds)"
  have "archives (zip_entries e p (collect_entries target target (Some ds) []) w)
          (file_of_path e p) = Some ?files"
    using assms(3) by (simp add: zip_entries_open collect_entries_top)
  moreover have "map snd ?files = regular_files [] ds"
    using assms(1,2) by (rule walk_written)
  moreover have "\<forall>(f, r) \<in> set ?files. GetFileAttributesW e f AND FILE_ATTRIBUTE_DIRECTORY = 0"
    using written_no_directory by blast
  ultimately show "\<exists>files. archives (zip_entries e p (collect_entries target target (Some ds) []) w)
                          (file_of_path e p) = Some files \<and>
                  map snd files = regular_files [] ds \<and>
                  (\<forall>(f, r) \<in> set files.
                      GetFileAttributesW e f AND FILE_ATTRIBUTE_DIRECTORY = 0)"
    by blast
qed

theorem collect_zip_regular_files_witness:
  "valid_tree tree_ex \<and>
   attrs_agree (GetFileAttributesW env_ex) (L ''T'') tree_ex \<and>
   mz_zip_writer_open_file env_ex (L ''out.zip'') \<and>
   regular_files [] tree_ex = [L ''sub'' @ [bslash] @ L ''a.txt'', L ''b.txt''] \<and>
   \<lparr>full = L ''T'' @ bslash # L ''sub'', rel = L ''sub''\<rparr>
     \<in> set (collect_entries (L ''T'') (L ''T'') (Some tree_ex) []) \<and>
   (\<exists>files. archives (zip_entries env_ex (L ''out.zip'')
                        (collect_entries (L ''T'') (L ''T'') (Some tree_ex) []) world0)
                (file_of_path env_ex (L ''out.zip''))
              = Some files \<and>
            map snd files = regular_files [] tree_ex)"
proof -
  have h1: "valid_tree tree_ex"
    by (simp add: ex_simps)
  have h2: "attrs_agree (GetFileAttributesW env_ex) (L ''T'') tree_ex"
    by (simp add: ex_simps)
  have h3: "mz_zip_writer_open_file env_ex (L ''out.zip'')"
    by (simp add: env_ex_def)
  have h4: "regular_files [] tree_ex = [L ''sub'' @ [bslash] @ L ''a.txt'', L ''b.txt'']"
    by (simp add: ex_simps)
  have h5: "Dirent (L ''sub'') 0x10
              (Some [Dirent (L ''.'') 0x10 None, Dirent (L ''..'') 0x10 None,
                     Dirent (L ''a.txt'') 0x20 None, Dirent (L ''Desktop.INI'') 0x20 None])
            \<in> set tree_ex"
    by (simp add: tree_ex_def)
  have h6: "PathFilter_include (L ''sub'') 0x10"
    by (simp add: ex_simps)
  note t = collect_zip_regular_files [OF h1 h2 h3, of world0]
  from t [THEN conjunct1, rule_format, OF h5] h6
  have c1: "\<lparr>full = L ''T'' @ bslash # L ''sub'', rel = L ''sub''\<rparr>
              \<in> set (collect_entries (L ''T'') (L ''T'') (Some tree_ex) [])"
    by simp
  from t have c2: "\<exists>files. archives (zip_entries env_ex (L ''out.zip'')
                        (collect_entries (L ''T'') (L ''T'') (Some tree_ex) []) world0)
                (file_of_path env_ex (L ''out.zip''))
              = Some files \<and>
            map snd files = regular_files [] tree_ex"
    by blast
  from h1 h2 h3 h4 c1 c2 show ?thesis
    by (intro conjI)
qed

section \<open>The filter in the walk and at write time\<close>

lemma collect_loop_excluded:
  "\<not> PathFilter_include name attrs \<Longrightarrow>
   collect_loop base cdir (Dirent name attrs sub # ds) arr = collect_loop base cdir ds arr"
  by (auto simp: PathFilter_include_def hidden_or_system split: if_splits)

lemma collect_loop_included:
  "PathFilter_include name attrs \<Longrightarrow>
   collect_loop base cdir (Dirent name attrs sub # ds) arr =
     collect_loop base cdir ds
       (let full_path = cdir @ [bslash] @ name;
            base_len = length base;
            rel_part =
              (if take base_len full_path = base \<and> base_len < length full_path \<and>
                  full_path ! base_len = bslash
               then drop (base_len + 1) full_path
               else name);
            arr1 = arr @ [\<lparr>full = full_path, rel = rel_part\<rparr>]
        in if attrs AND FILE_ATTRIBUTE_DIRECTORY \<noteq> 0
           then collect_entries base full_path sub arr1
           else arr1)"
  by (simp add: PathFilter_include_def hidden_or_system_0 Let_def split: if_splits)

lemma collect_loop_filter:
  "collect_loop base cdir ds arr =
   collect_loop base cdir
     (filter (\<lambda>d. PathFilter_include (cFileName d) (dwFileAttributes d)) ds) arr"
proof (induction ds arbitrary: arr)
  case Nil
  then show ?case by simp
next
  case (Cons d ds)
  obtain name attrs sub where d: "d = Dirent name attrs sub"
    by (cases d)
  show ?case
  proof (cases "PathFilter_include name attrs")
    case True
    then show ?thesis
      unfolding d by (simp only: filter.simps dirent.sel if_True collect_loop_included [OF True] Cons.IH [symmetric])
  next
    case False
    then show ?thesis
      unfolding d by (simp only: filter.simps dirent.sel if_False collect_loop_excluded [OF False] Cons.IH [symmetric])
  qed
qed

lemma collect_grows:
  "set arr \<subseteq> set (collect_entries base cdir l arr)"
  "set arr' \<subseteq> set (collect_loop base' cdir' ds arr')"
proof (induction base cdir l arr and base' cdir' ds arr' rule: collect_entries_collect_loop.induct)
  case (4 base_dir curr_dir name attrs sub ffds arr)
  show ?case
  proof (cases "PathFilter_include name attrs")
    case False
    with 4 show ?thesis
      by (auto simp: PathFilter_include_def hidden_or_system split: if_splits)
  next
    case True
    then have inc: "\<not> (name = L ''.'' \<or> name = L ''..'')"
        "\<not> attrs AND (FILE_ATTRIBUTE_HIDDEN OR FILE_ATTRIBUTE_SYSTEM) \<noteq> 0"
        "\<not> wcsicmp_eq name (L ''desktop.ini'')"
      by (auto simp: PathFilter_include_def hidden_or_system split: if_splits)
    note ih1 = 4(4)[OF inc refl refl refl refl]
    note ih2 = 4(5)[OF inc refl refl refl refl refl]
    show ?thesis
      unfolding collect_loop_included [OF True]
      using ih1 ih2 by (cases "attrs AND FILE_ATTRIBUTE_DIRECTORY \<noteq> 0") (auto simp: Let_def)
  qed
qed simp_all


lemma set_walk_Cons:
  "set (walk cdir pre (Dirent name attrs sub # ds)) =
     (if PathFilter_include name attrs
      then insert \<lparr>full = cdir @ bslash # name, rel = pre @ name\<rparr>
             (if attrs AND FILE_ATTRIBUTE_DIRECTORY \<noteq> 0
              then (case sub of
                      None \<Rightarrow> {}
                    | Some l \<Rightarrow> set (walk (cdir @ bslash # name) (pre @ name @ [bslash]) l))
              else {})
      else {}) \<union> set (walk cdir pre ds)"
  by (cases "PathFilter_include name attrs"; cases "attrs AND FILE_ATTRIBUTE_DIRECTORY \<noteq> 0";
      cases sub; simp)

lemma walk_bslash: "en \<in> set (walk cdir pre ds) \<Longrightarrow> bslash \<in> set (full en)"
proof (induction cdir pre ds rule: walk.induct)
  case (1 cdir pre)
  then show ?case by simp
next
  case (2 cdir pre name attrs sub ds)
  from "2.prems" consider
      (head) "en = \<lparr>full = cdir @ bslash # name, rel = pre @ name\<rparr>"
    | (below) l where "PathFilter_include name attrs" "attrs AND FILE_ATTRIBUTE_DIRECTORY \<noteq> 0"
        "sub = Some l" "en \<in> set (walk (cdir @ bslash # name) (pre @ name @ [bslash]) l)"
    | (rest) "en \<in> set (walk cdir pre ds)"
    unfolding set_walk_Cons by (auto split: if_splits option.splits)
  then show ?case
  proof cases
    case head
    then show ?thesis by simp
  next
    case below
    then show ?thesis using "2.IH"(1) by blast
  next
    case rest
    then show ?thesis using "2.IH"(2) by blast
  qed
qed

lemma file_name_bslash:
  "bslash \<in> set path \<Longrightarrow> \<exists>k. wcsrchr path bslash = Some k \<and> file_name path = drop (Suc k) path"
  by (cases "wcsrchr path bslash") (auto simp: file_name_def wcsrchr_None)

lemma written_not_excluded:
  assumes "(f, r) \<in> set (written e entries)"
    and "\<forall>en \<in> set entries. bslash \<in> set (full en)"
  shows "\<not> excluded_file e f"
proof -
  from assms(1) obtain en where en: "en \<in> set entries" "zip_adds e en" "f = full en"
    by (auto simp: written_def)
  with assms(2) have "bslash \<in> set f"
    by blast
  then obtain k where k: "wcsrchr f bslash = Some k" "file_name f = drop (Suc k) f"
    using file_name_bslash by blast
  from en(2) have "\<not> zip_skips e en"
    by (simp add: zip_adds_def)
  then show ?thesis
    using k en(3) by (simp add: zip_skips_def excluded_file_def hidden_or_system_0)
qed

lemma zip_entries_archives:
  "archives (zip_entries e p entries w) =
     (if mz_zip_writer_open_file e p
      then (archives w)(file_of_path e p \<mapsto> written e entries)
      else archives w)"
  by (simp add: zip_entries_open zip_entries_closed)

lemma only_clean_refl: "only_clean e w w"
  by (simp add: only_clean_def)

lemma only_clean_zip_entries:
  assumes "only_clean e w0 w" and "\<forall>en \<in> set entries. bslash \<in> set (full en)"
  shows "only_clean e w0 (zip_entries e p entries w)"
  unfolding only_clean_def
proof (intro allI impI)
  fix q files
  assume a: "archives (zip_entries e p entries w) q = Some files"
  show "archives w0 q = Some files \<or> (\<forall>(f, r) \<in> set files. \<not> excluded_file e f)"
  proof (cases "mz_zip_writer_open_file e p \<and> q = file_of_path e p")
    case True
    with a have "files = written e entries"
      by (simp add: zip_entries_archives)
    then show ?thesis
      using written_not_excluded [OF _ assms(2)] by auto
  next
    case False
    with a have "archives w q = Some files"
      by (auto simp: zip_entries_archives split: if_splits)
    with assms(1) show ?thesis
      by (simp add: only_clean_def)
  qed
qed

lemma collect_top_bslash:
  "\<forall>en \<in> set (collect_entries target target l []). bslash \<in> set (full en)"
  by (cases l) (auto simp: collect_entries_top walk_bslash)

lemma only_clean_split_loop:
  "only_clean e w0 w \<Longrightarrow> only_clean e w0 (split_loop e source_folder output ffds w)"
proof (induction ffds arbitrary: w)
  case Nil
  then show ?case by simp
next
  case (Cons ffd ffds)
  show ?case
  proof (cases "resolve_link e (source_folder @ [bslash] @ cFileName ffd)")
    case None
    with Cons show ?thesis by simp
  next
    case (Some target_dir)
    with Cons show ?thesis
      by (simp add: Let_def only_clean_zip_entries collect_top_bslash)
  qed
qed

lemma single_loop_bslash:
  "\<forall>en \<in> set entries. bslash \<in> set (full en) \<Longrightarrow>
   \<forall>en \<in> set (single_loop e source_folder ffds entries). bslash \<in> set (full en)"
proof (induction ffds arbitrary: entries)
  case Nil
  then show ?case by simp
next
  case (Cons ffd ffds)
  show ?case
  proof (cases "resolve_link e (source_folder @ [bslash] @ cFileName ffd)")
    case None
    with Cons show ?thesis by simp
  next
    case (Some target_dir)
    have "\<forall>en \<in> set (entries @
            map (\<lambda>t. \<lparr>full = full t, rel = link_name (cFileName ffd) @ [bslash] @ rel t\<rparr>)
              (collect_entries target_dir target_dir
                 (FindFirstFileW e (target_dir @ [bslash] @ L ''*'')) [])).
            bslash \<in> set (full en)"
      using Cons.prems collect_top_bslash [of target_dir] by auto
    from Cons.IH [OF this] Some show ?thesis
      by (simp add: Let_def)
  qed
qed

lemma only_clean_wmain: "only_clean e w (snd (wmain e argv0 args w))"
proof -
  have upd: "only_clean e w (w\<lparr>console := c\<rparr>)" for c
    by (simp add: only_clean_def)
  have single: "\<forall>en \<in> set (single_loop e s ffds []). bslash \<in> set (full en)" for s ffds
    using single_loop_bslash [of "[]"] by simp
  show ?thesis
    unfolding wmain_def Let_def
    by (auto simp: upd only_clean_refl only_clean_split_loop only_clean_zip_entries single
        split: option.splits)
qed

lemma collect_loop_keeps:
  "x \<in> set arr1 \<Longrightarrow>
   x \<in> set (collect_loop base cdir ds (if c then collect_entries base f sub arr1 else arr1))"
  using collect_grows(1) [of arr1 base f sub]
    collect_grows(2) [of "if c then collect_entries base f sub arr1 else arr1" base cdir ds]
  by (cases c) auto

lemma collect_loop_records:
  "d \<in> set ds \<Longrightarrow> PathFilter_include (cFileName d) (dwFileAttributes d) \<Longrightarrow>
   \<exists>en \<in> set (collect_loop base cdir ds arr). full en = cdir @ [bslash] @ cFileName d"
proof (induction ds arbitrary: arr)
  case Nil
  then show ?case by simp
next
  case (Cons a ds)
  obtain name attrs sub where a: "a = Dirent name attrs sub"
    by (cases a)
  show ?case
  proof (cases "d = a")
    case True
    with Cons.prems(2) a have inc: "PathFilter_include name attrs"
      by simp
    define r where "r =
      (if take (length base) (cdir @ [bslash] @ name) = base \<and>
          length base < length (cdir @ [bslash] @ name) \<and>
          (cdir @ [bslash] @ name) ! length base = bslash
       then drop (length base + 1) (cdir @ [bslash] @ name)
       else name)"
    let ?en = "\<lparr>full = cdir @ [bslash] @ name, rel = r\<rparr>"
    have eq: "collect_loop base cdir (Dirent name attrs sub # ds) arr =
              collect_loop base cdir ds
                (if attrs AND FILE_ATTRIBUTE_DIRECTORY \<noteq> 0
                 then collect_entries base (cdir @ [bslash] @ name) sub (arr @ [?en])
                 else arr @ [?en])"
      unfolding collect_loop_included [OF inc] Let_def r_def ..
    have "?en \<in> set (collect_loop base cdir (Dirent name attrs sub # ds) arr)"
      unfolding eq by (rule collect_loop_keeps) simp
    then show ?thesis
      unfolding True a dirent.sel by (rule bexI [rotated]) simp
  next
    case False
    with Cons.prems have d: "d \<in> set ds"
      by simp
    show ?thesis
    proof (cases "PathFilter_include name attrs")
      case True
      show ?thesis
        unfolding a collect_loop_included [OF True]
        by (rule Cons.IH [OF d Cons.prems(2)])
    next
      case False
      show ?thesis
        unfolding a collect_loop_excluded [OF False]
        by (rule Cons.IH [OF d Cons.prems(2)])
    qed
  qed
qed

lemma written_recheck:
  assumes "(f, r) \<in> set (written e entries)"
  shows "GetFileAttributesW e f AND FILE_ATTRIBUTE_HIDDEN = 0 \<and>
         GetFileAttributesW e f AND FILE_ATTRIBUTE_SYSTEM = 0 \<and>
         (bslash \<in> set f \<longrightarrow> \<not> wcsicmp_eq (file_name f) (L ''desktop.ini''))"
proof -
  from assms obtain en where en: "en \<in> set entries" "zip_adds e en" "f = full en"
    by (auto simp: written_def)
  from en(2) have ns: "\<not> zip_skips e en"
    by (simp add: zip_adds_def)
  then have "GetFileAttributesW e f AND FILE_ATTRIBUTE_HIDDEN = 0 \<and>
             GetFileAttributesW e f AND FILE_ATTRIBUTE_SYSTEM = 0"
    using en(3) by (simp add: zip_skips_def hidden_or_system_0)
  moreover have "\<not> wcsicmp_eq (file_name f) (L ''desktop.ini'')" if "bslash \<in> set f"
  proof -
    from that obtain k where "wcsrchr f bslash = Some k" "file_name f = drop (Suc k) f"
      using file_name_bslash by blast
    with ns en(3) show ?thesis
      by (simp add: zip_skips_def)
  qed
  ultimately show ?thesis
    by blast
qed

lemma zip_adds_PathFilter:
  assumes "bslash \<in> set (full en)"
    and "file_name (full en) \<noteq> L ''.''" and "file_name (full en) \<noteq> L ''..''"
  shows "zip_adds e en \<longleftrightarrow>
         PathFilter_include (file_name (full en)) (GetFileAttributesW e (full en)) \<and>
         GetFileAttributesW e (full en) AND FILE_ATTRIBUTE_DIRECTORY = 0"
proof -
  from assms(1) obtain k where k: "wcsrchr (full en) bslash = Some k"
      "file_name (full en) = drop (Suc k) (full en)"
    using file_name_bslash by blast
  have "zip_skips e en \<longleftrightarrow>
        \<not> PathFilter_include (file_name (full en)) (GetFileAttributesW e (full en))"
    using assms(2,3) by (simp add: zip_skips_def PathFilter_include_def k hidden_or_system)
  then show ?thesis
    by (simp add: zip_adds_def)
qed

lemma written_PathFilter:
  assumes "\<forall>en \<in> set entries. bslash \<in> set (full en) \<and>
             file_name (full en) \<noteq> L ''.'' \<and> file_name (full en) \<noteq> L ''..''"
  shows "written e entries =
         map (\<lambda>en. (full en, rel en))
           (filter (\<lambda>en. PathFilter_include (file_name (full en)) (GetFileAttributesW e (full en)) \<and>
                          GetFileAttributesW e (full en) AND FILE_ATTRIBUTE_DIRECTORY = 0) entries)"
proof -
  have "zip_adds e en =
        (PathFilter_include (file_name (full en)) (GetFileAttributesW e (full en)) \<and>
         GetFileAttributesW e (full en) AND FILE_ATTRIBUTE_DIRECTORY = 0)"
    if "en \<in> set entries" for en
    using that assms by (intro zip_adds_PathFilter) simp_all
  then have "filter (zip_adds e) entries =
        filter (\<lambda>en. PathFilter_include (file_name (full en)) (GetFileAttributesW e (full en)) \<and>
                      GetFileAttributesW e (full en) AND FILE_ATTRIBUTE_DIRECTORY = 0) entries"
    by (rule filter_cong [OF refl])
  then show ?thesis
    by (simp add: written_def)
qed

subsection \<open>Claim C2: the exclusion filter\<close>

text \<open>
  Claim C2. The three \<^verbatim>\<open>continue\<close> tests of the walk (lines 63-70) are PathFilter of
  the specification: a listing and the same listing with the excluded children removed
  are walked alike, and every child that passes is recorded. At write time
  \<open>zip_entries\<close> tests the attributes of the source path and the name after its last
  backslash (lines 122-131). Of the entries it is given, when their source paths have a
  directory part and do not end in \<^verbatim>\<open>.\<close> or \<^verbatim>\<open>..\<close>, an archive that opens receives
  exactly those that PathFilter includes, by their name and their attributes at that
  moment, and that are not directories: all of them, in order, and no other entry.
  Whatever the entries, a file that is added has neither the hidden nor the system bit,
  and the part of its path after the last backslash is not \<^verbatim>\<open>desktop.ini\<close> under any
  spelling of its letters. Every path that \<open>wmain\<close> collects holds a backslash, so after
  a run of \<open>wmain\<close>, in either mode, an archive is as it was before the run or holds no
  hidden file, no system file and no \<^verbatim>\<open>desktop.ini\<close>.
\<close>

theorem exclusion_filter_walk_and_write:
  "collect_loop base cdir ds arr =
     collect_loop base cdir
       (filter (\<lambda>d. PathFilter_include (cFileName d) (dwFileAttributes d)) ds) arr \<and>
   (\<forall>d \<in> set ds. PathFilter_include (cFileName d) (dwFileAttributes d) \<longrightarrow>
      (\<exists>en \<in> set (collect_loop base cdir ds arr). full en = cdir @ [bslash] @ cFileName d)) \<and>
   (mz_zip_writer_open_file e p \<and>
    (\<forall>en \<in> set entries. bslash \<in> set (full en) \<and>
        file_name (full en) \<noteq> L ''.'' \<and> file_name (full en) \<noteq> L ''..'') \<longrightarrow>
      archives (zip_entries e p entries w) (file_of_path e p) =
        Some (map (\<lambda>en. (full en, rel en))
               (filter (\<lambda>en. PathFilter_include (file_name (full en))
                                (GetFileAttributesW e (full en)) \<and>
                              GetFileAttributesW e (full en) AND FILE_ATTRIBUTE_DIRECTORY = 0)
                  entries))) \<and>
   (mz_zip_writer_open_file e p \<longrightarrow>
      (\<exists>files. archives (zip_entries e p entries w) (file_of_path e p) = Some files \<and>
         (\<forall>(f, r) \<in> set files.
            GetFileAttributesW e f AND FILE_ATTRIBUTE_HIDDEN = 0 \<and>
            GetFileAttributesW e f AND FILE_ATTRIBUTE_SYSTEM = 0 \<and>
            (bslash \<in> set f \<longrightarrow> \<not> wcsicmp_eq (file_name f) (L ''desktop.ini''))))) \<and>
   (\<forall>q files. archives (snd (wmain e argv0 args w)) q = Some files \<longrightarrow>
      archives w q = Some files \<or> (\<forall>(f, r) \<in> set files. \<not> excluded_file e f))"
proof (intro conjI)
  show "collect_loop base cdir ds arr =
     collect_loop base cdir
       (filter (\<lambda>d. PathFilter_include (cFileName d) (dwFileAttributes d)) ds) arr"
    by (rule collect_loop_filter)
  show "\<forall>d \<in> set ds. PathFilter_include (cFileName d) (dwFileAttributes d) \<longrightarrow>
      (\<exists>en \<in> set (collect_loop base cdir ds arr). full en = cdir @ [bslash] @ cFileName d)"
    using collect_loop_records by blast
  show "mz_zip_writer_open_file e p \<and>
    (\<forall>en \<in> set entries. bslash \<in> set (full en) \<and>
        file_name (full en) \<noteq> L ''.'' \<and> file_name (full en) \<noteq> L ''..'') \<longrightarrow>
      archives (zip_entries e p entries w) (file_of_path e p) =
        Some (map (\<lambda>en. (full en, rel en))
               (filter (\<lambda>en. PathFilter_include (file_name (full en))
                                (GetFileAttributesW e (full en)) \<and>
                              GetFileAttributesW e (full en) AND FILE_ATTRIBUTE_DIRECTORY = 0)
                  entries))"
  proof
    assume a: "mz_zip_writer_open_file e p \<and>
      (\<forall>en \<in> set entries. bslash \<in> set (full en) \<and>
          file_name (full en) \<noteq> L ''.'' \<and> file_name (full en) \<noteq> L ''..'')"
    then have "archives (zip_entries e p entries w) (file_of_path e p) = Some (written e entries)"
      by (simp add: zip_entries_archives)
    then show "archives (zip_entries e p entries w) (file_of_path e p) =
        Some (map (\<lambda>en. (full en, rel en))
               (filter (\<lambda>en. PathFilter_include (file_name (full en))
                                (GetFileAttributesW e (full en)) \<and>
                              GetFileAttributesW e (full en) AND FILE_ATTRIBUTE_DIRECTORY = 0)
                  entries))"
      using written_PathFilter [of entries e] a by simp
  qed
  show "mz_zip_writer_open_file e p \<longrightarrow>
      (\<exists>files. archives (zip_entries e p entries w) (file_of_path e p) = Some files \<and>
         (\<forall>(f, r) \<in> set files.
            GetFileAttributesW e f AND FILE_ATTRIBUTE_HIDDEN = 0 \<and>
            GetFileAttributesW e f AND FILE_ATTRIBUTE_SYSTEM = 0 \<and>
            (bslash \<in> set f \<longrightarrow> \<not> wcsicmp_eq (file_name f) (L ''desktop.ini''))))"
  proof
    assume "mz_zip_writer_open_file e p"
    then have "archives (zip_entries e p entries w) (file_of_path e p) = Some (written e entries)"
      by (simp add: zip_entries_archives)
    moreover have "\<forall>(f, r) \<in> set (written e entries).
            GetFileAttributesW e f AND FILE_ATTRIBUTE_HIDDEN = 0 \<and>
            GetFileAttributesW e f AND FILE_ATTRIBUTE_SYSTEM = 0 \<and>
            (bslash \<in> set f \<longrightarrow> \<not> wcsicmp_eq (file_name f) (L ''desktop.ini''))"
      using written_recheck by blast
    ultimately show "\<exists>files. archives (zip_entries e p entries w) (file_of_path e p) = Some files \<and>
         (\<forall>(f, r) \<in> set files.
            GetFileAttributesW e f AND FILE_ATTRIBUTE_HIDDEN = 0 \<and>
            GetFileAttributesW e f AND FILE_ATTRIBUTE_SYSTEM = 0 \<and>
            (bslash \<in> set f \<longrightarrow> \<not> wcsicmp_eq (file_name f) (L ''desktop.ini'')))"
      by blast
  qed
  show "\<forall>q files. archives (snd (wmain e argv0 args w)) q = Some files \<longrightarrow>
      archives w q = Some files \<or> (\<forall>(f, r) \<in> set files. \<not> excluded_file e f)"
    using only_clean_wmain [of e w argv0 args] by (simp add: only_clean_def)
qed

lemma wmain_single_ex:
  "archives (snd (wmain env_ex (L ''prog'') [L ''S3'', L ''out.zip''] world0))
     (file_of_path env_ex (L ''out.zip'')) =
     Some [(L ''T'' @ [bslash] @ L ''sub'' @ [bslash] @ L ''a.txt'',
            L ''Docs'' @ [bslash] @ L ''sub'' @ [bslash] @ L ''a.txt''),
           (L ''T'' @ [bslash] @ L ''b.txt'', L ''Docs'' @ [bslash] @ L ''b.txt'')]"
  by (simp add: wmain_def zip_entries_def link_name_def ex_simps)

text \<open>
  The walk of \<open>tree_ex\<close> meets \<^verbatim>\<open>.\<close>, \<^verbatim>\<open>..\<close>, the hidden \<^verbatim>\<open>h.txt\<close> and
  \<^verbatim>\<open>Desktop.INI\<close>. The writer is given the hidden file, \<^verbatim>\<open>Desktop.INI\<close>, the
  directory \<^verbatim>\<open>sub\<close> and \<^verbatim>\<open>b.txt\<close>, and adds \<^verbatim>\<open>b.txt\<close> alone. The run of \<open>wmain\<close>
  is single-archive mode on the folder \<^verbatim>\<open>S3\<close>, whose shortcut leads to \<open>tree_ex\<close>.
\<close>

theorem exclusion_filter_walk_and_write_witness:
  "filter (\<lambda>d. PathFilter_include (cFileName d) (dwFileAttributes d)) tree_ex =
     [Dirent (L ''sub'') 0x10
        (Some [Dirent (L ''.'') 0x10 None, Dirent (L ''..'') 0x10 None,
               Dirent (L ''a.txt'') 0x20 None, Dirent (L ''Desktop.INI'') 0x20 None]),
      Dirent (L ''b.txt'') 0x20 None] \<and>
   map full (collect_loop (L ''T'') (L ''T'') tree_ex []) =
     [L ''T'' @ [bslash] @ L ''sub'', L ''T'' @ [bslash] @ L ''sub'' @ [bslash] @ L ''a.txt'',
      L ''T'' @ [bslash] @ L ''b.txt''] \<and>
   (\<exists>en \<in> set (collect_loop (L ''T'') (L ''T'') tree_ex []).
      full en = L ''T'' @ [bslash] @ L ''b.txt'') \<and>
   mz_zip_writer_open_file env_ex (L ''out.zip'') \<and>
   archives (zip_entries env_ex (L ''out.zip'')
       [\<lparr>full = L ''T'' @ [bslash] @ L ''h.txt'', rel = L ''h.txt''\<rparr>,
        \<lparr>full = L ''T'' @ [bslash] @ L ''sub'' @ [bslash] @ L ''Desktop.INI'',
         rel = L ''sub'' @ [bslash] @ L ''Desktop.INI''\<rparr>,
        \<lparr>full = L ''T'' @ [bslash] @ L ''sub'', rel = L ''sub''\<rparr>,
        \<lparr>full = L ''T'' @ [bslash] @ L ''b.txt'', rel = L ''b.txt''\<rparr>] world0)
     (file_of_path env_ex (L ''out.zip'')) =
     Some [(L ''T'' @ [bslash] @ L ''b.txt'', L ''b.txt'')] \<and>
   (\<exists>files. archives (zip_entries env_ex (L ''out.zip'')
       [\<lparr>full = L ''T'' @ [bslash] @ L ''h.txt'', rel = L ''h.txt''\<rparr>,
        \<lparr>full = L ''T'' @ [bslash] @ L ''sub'' @ [bslash] @ L ''Desktop.INI'',
         rel = L ''sub'' @ [bslash] @ L ''Desktop.INI''\<rparr>,
        \<lparr>full = L ''T'' @ [bslash] @ L ''sub'', rel = L ''sub''\<rparr>,
        \<lparr>full = L ''T'' @ [bslash] @ L ''b.txt'', rel = L ''b.txt''\<rparr>] world0)
               (file_of_path env_ex (L ''out.zip'')) = Some files \<and>
         (\<forall>(f, r) \<in> set files.
            GetFileAttributesW env_ex f AND FILE_ATTRIBUTE_HIDDEN = 0 \<and>
            GetFileAttributesW env_ex f AND FILE_ATTRIBUTE_SYSTEM = 0 \<and>
            (bslash \<in> set f \<longrightarrow> \<not> wcsicmp_eq (file_name f) (L ''desktop.ini'')))) \<and>
   (\<exists>files. archives (snd (wmain env_ex (L ''prog'') [L ''S3'', L ''out.zip''] world0))
               (file_of_path env_ex (L ''out.zip'')) = Some files \<and>
            map fst files = [L ''T'' @ [bslash] @ L ''sub'' @ [bslash] @ L ''a.txt'',
                             L ''T'' @ [bslash] @ L ''b.txt''] \<and>
            archives world0 (file_of_path env_ex (L ''out.zip'')) \<noteq> Some files \<and>
            (\<forall>(f, r) \<in> set files. \<not> excluded_file env_ex f))"
proof -
  let ?d = "Dirent (L ''b.txt'') 0x20 None"
  let ?sub = "Dirent (L ''sub'') 0x10
        (Some [Dirent (L ''.'') 0x10 None, Dirent (L ''..'') 0x10 None,
               Dirent (L ''a.txt'') 0x20 None, Dirent (L ''Desktop.INI'') 0x20 None])"
  let ?entries = "[\<lparr>full = L ''T'' @ [bslash] @ L ''h.txt'', rel = L ''h.txt''\<rparr>,
        \<lparr>full = L ''T'' @ [bslash] @ L ''sub'' @ [bslash] @ L ''Desktop.INI'',
         rel = L ''sub'' @ [bslash] @ L ''Desktop.INI''\<rparr>,
        \<lparr>full = L ''T'' @ [bslash] @ L ''sub'', rel = L ''sub''\<rparr>,
        \<lparr>full = L ''T'' @ [bslash] @ L ''b.txt'', rel = L ''b.txt''\<rparr>]"
  let ?files = "[(L ''T'' @ [bslash] @ L ''sub'' @ [bslash] @ L ''a.txt'',
                  L ''Docs'' @ [bslash] @ L ''sub'' @ [bslash] @ L ''a.txt''),
                 (L ''T'' @ [bslash] @ L ''b.txt'', L ''Docs'' @ [bslash] @ L ''b.txt'')]"
  let ?q = "file_of_path env_ex (L ''out.zip'')"
  have f0: "filter (\<lambda>d. PathFilter_include (cFileName d) (dwFileAttributes d)) tree_ex =
              [?sub, ?d]"
    by (simp add: ex_simps)
  have h1: "?d \<in> set tree_ex"
    by (simp add: tree_ex_def)
  have h2: "PathFilter_include (cFileName ?d) (dwFileAttributes ?d)"
    by (simp add: ex_simps)
  have h3: "mz_zip_writer_open_file env_ex (L ''out.zip'')"
    by (simp add: env_ex_def)
  have h4: "\<forall>en \<in> set ?entries. bslash \<in> set (full en) \<and>
        file_name (full en) \<noteq> L ''.'' \<and> file_name (full en) \<noteq> L ''..''"
    by (simp add: file_name_def ex_simps)
  have h5: "archives world0 ?q \<noteq> Some ?files"
    by (simp add: world0_def)
  have e1: "map full (collect_loop (L ''T'') (L ''T'') [?sub, ?d] []) =
     [L ''T'' @ [bslash] @ L ''sub'', L ''T'' @ [bslash] @ L ''sub'' @ [bslash] @ L ''a.txt'',
      L ''T'' @ [bslash] @ L ''b.txt'']"
    by (simp add: ex_simps)
  have e2: "map (\<lambda>en. (full en, rel en))
               (filter (\<lambda>en. PathFilter_include (file_name (full en))
                                (GetFileAttributesW env_ex (full en)) \<and>
                              GetFileAttributesW env_ex (full en) AND FILE_ATTRIBUTE_DIRECTORY = 0)
                  ?entries) = [(L ''T'' @ [bslash] @ L ''b.txt'', L ''b.txt'')]"
    by (simp add: file_name_def ex_simps)
  note t = exclusion_filter_walk_and_write [of "L ''T''" "L ''T''" tree_ex "[]" env_ex "L ''out.zip''"
      ?entries world0 "L ''prog''" "[L ''S3'', L ''out.zip'']"]
  from t have eq: "collect_loop (L ''T'') (L ''T'') tree_ex [] =
      collect_loop (L ''T'') (L ''T'')
        (filter (\<lambda>d. PathFilter_include (cFileName d) (dwFileAttributes d)) tree_ex) []"
    by (rule conjunct1)
  have c1: "map full (collect_loop (L ''T'') (L ''T'') tree_ex []) =
     [L ''T'' @ [bslash] @ L ''sub'', L ''T'' @ [bslash] @ L ''sub'' @ [bslash] @ L ''a.txt'',
      L ''T'' @ [bslash] @ L ''b.txt'']"
    by (subst eq) (simp only: f0 e1)
  from t have "\<forall>d \<in> set tree_ex. PathFilter_include (cFileName d) (dwFileAttributes d) \<longrightarrow>
      (\<exists>en \<in> set (collect_loop (L ''T'') (L ''T'') tree_ex []).
         full en = L ''T'' @ [bslash] @ cFileName d)"
    by (rule conjunct2 [THEN conjunct1])
  from this [rule_format, OF h1 h2]
  have c2: "\<exists>en \<in> set (collect_loop (L ''T'') (L ''T'') tree_ex []).
      full en = L ''T'' @ [bslash] @ L ''b.txt''"
    by simp
  from t have "mz_zip_writer_open_file env_ex (L ''out.zip'') \<and>
    (\<forall>en \<in> set ?entries. bslash \<in> set (full en) \<and>
        file_name (full en) \<noteq> L ''.'' \<and> file_name (full en) \<noteq> L ''..'') \<longrightarrow>
      archives (zip_entries env_ex (L ''out.zip'') ?entries world0) ?q =
        Some (map (\<lambda>en. (full en, rel en))
               (filter (\<lambda>en. PathFilter_include (file_name (full en))
                                (GetFileAttributesW env_ex (full en)) \<and>
                              GetFileAttributesW env_ex (full en) AND FILE_ATTRIBUTE_DIRECTORY = 0)
                  ?entries))"
    by (rule conjunct2 [THEN conjunct2, THEN conjunct1])
  from mp [OF this conjI [OF h3 h4]]
  have c3: "archives (zip_entries env_ex (L ''out.zip'') ?entries world0) ?q =
      Some [(L ''T'' @ [bslash] @ L ''b.txt'', L ''b.txt'')]"
    unfolding e2 .
  from t have "mz_zip_writer_open_file env_ex (L ''out.zip'') \<longrightarrow>
      (\<exists>files. archives (zip_entries env_ex (L ''out.zip'') ?entries world0) ?q = Some files \<and>
         (\<forall>(f, r) \<in> set files.
            GetFileAttributesW env_ex f AND FILE_ATTRIBUTE_HIDDEN = 0 \<and>
            GetFileAttributesW env_ex f AND FILE_ATTRIBUTE_SYSTEM = 0 \<and>
            (bslash \<in> set f \<longrightarrow> \<not> wcsicmp_eq (file_name f) (L ''desktop.ini''))))"
    by (rule conjunct2 [THEN conjunct2, THEN conjunct2, THEN conjunct1])
  from mp [OF this h3]
  have c3': "\<exists>files. archives (zip_entries env_ex (L ''out.zip'') ?entries world0) ?q = Some files \<and>
         (\<forall>(f, r) \<in> set files.
            GetFileAttributesW env_ex f AND FILE_ATTRIBUTE_HIDDEN = 0 \<and>
            GetFileAttributesW env_ex f AND FILE_ATTRIBUTE_SYSTEM = 0 \<and>
            (bslash \<in> set f \<longrightarrow> \<not> wcsicmp_eq (file_name f) (L ''desktop.ini'')))" .
  from t have "\<forall>q files. archives (snd (wmain env_ex (L ''prog'') [L ''S3'', L ''out.zip''] world0)) q
        = Some files \<longrightarrow>
      archives world0 q = Some files \<or> (\<forall>(f, r) \<in> set files. \<not> excluded_file env_ex f)"
    by (rule conjunct2 [THEN conjunct2, THEN conjunct2, THEN conjunct2])
  from this [rule_format, OF wmain_single_ex] h5
  have "\<forall>(f, r) \<in> set ?files. \<not> excluded_file env_ex f"
    by blast
  moreover have "map fst ?files = [L ''T'' @ [bslash] @ L ''sub'' @ [bslash] @ L ''a.txt'',
                             L ''T'' @ [bslash] @ L ''b.txt'']"
    by simp
  ultimately
  have c4: "\<exists>files. archives (snd (wmain env_ex (L ''prog'') [L ''S3'', L ''out.zip''] world0))
               ?q = Some files \<and>
            map fst files = [L ''T'' @ [bslash] @ L ''sub'' @ [bslash] @ L ''a.txt'',
                             L ''T'' @ [bslash] @ L ''b.txt''] \<and>
            archives world0 ?q \<noteq> Some files \<and>
            (\<forall>(f, r) \<in> set files. \<not> excluded_file env_ex f)"
    using wmain_single_ex h5 by (intro exI [of _ ?files] conjI)
  from f0 c1 c2 h3 c3 c3' c4 show ?thesis
    by (intro conjI)
qed

section \<open>Relative paths\<close>

lemma separators_differ: "bslash \<noteq> colon" "bslash \<noteq> fslash"
  by (simp_all add: bslash_def colon_def fslash_def)

lemma walk_relative:
  assumes "valid_tree ds"
    and "pre = [] \<or> hd pre \<noteq> bslash"
    and "colon \<notin> set pre" and "fslash \<notin> set pre"
    and "en \<in> set (walk cdir pre ds)"
  shows "relative_path (rel en)"
  using assms
proof (induction cdir pre ds rule: walk.induct)
  case (1 cdir pre)
  then show ?case by simp
next
  case (2 cdir pre name attrs sub ds)
  from "2.prems"(1) have nm: "valid_name name" and vds: "valid_tree ds"
    by simp_all
  from "2.prems"(5) consider
      (head) "en = \<lparr>full = cdir @ bslash # name, rel = pre @ name\<rparr>"
    | (below) l where "PathFilter_include name attrs" "attrs AND FILE_ATTRIBUTE_DIRECTORY \<noteq> 0"
        "sub = Some l" "en \<in> set (walk (cdir @ bslash # name) (pre @ name @ [bslash]) l)"
    | (rest) "en \<in> set (walk cdir pre ds)"
    unfolding set_walk_Cons by (auto split: if_splits option.splits)
  then show ?case
  proof cases
    case head
    have "hd (pre @ name) \<noteq> bslash"
      using nm "2.prems"(2) by (cases pre; cases name) (auto simp: valid_name_def)
    then show ?thesis
      using head nm "2.prems"(3,4) by (simp add: relative_path_def valid_name_def)
  next
    case below
    have vl: "valid_tree l"
      using "2.prems"(1) below(3) by simp
    have hdp: "pre @ name @ [bslash] = [] \<or> hd (pre @ name @ [bslash]) \<noteq> bslash"
      using nm "2.prems"(2) by (cases pre; cases name) (auto simp: valid_name_def)
    have c: "colon \<notin> set (pre @ name @ [bslash])" "fslash \<notin> set (pre @ name @ [bslash])"
      using nm "2.prems"(3,4) separators_differ by (auto simp: valid_name_def)
    show ?thesis
      by (rule "2.IH"(1) [OF below(1,2,3) vl hdp c below(4)])
  next
    case rest
    show ?thesis
      by (rule "2.IH"(2) [OF vds "2.prems"(2,3,4) rest])
  qed
qed

lemma set_link_name: "set (link_name s) \<subseteq> set s"
proof -
  have "set (take i (take j s)) \<subseteq> set s" for i j
    by (meson set_take_subset subset_trans)
  moreover have "set (take i s) \<subseteq> set s" for i
    by (rule set_take_subset)
  ultimately show ?thesis
    by (auto simp: link_name_def Let_def split: option.splits)
qed

lemma collect_relative:
  assumes "valid_listing l" and "en \<in> set (collect_entries target target l [])"
  shows "relative_path (rel en)"
proof (cases l)
  case None
  with assms(2) show ?thesis by simp
next
  case (Some ds)
  with assms have "valid_tree ds" "en \<in> set (walk target [] ds)"
    by (simp_all add: valid_listing_def collect_entries_top)
  then show ?thesis
    using walk_relative [of ds "[]" en target] by simp
qed

lemma prefixed_relative:
  assumes "valid_name n" and "link_name n \<noteq> []" and "relative_path r"
  shows "relative_path (link_name n @ [bslash] @ r)"
proof -
  have sub: "set (link_name n) \<subseteq> set n"
    by (rule set_link_name)
  with assms(1) have "bslash \<notin> set (link_name n)" "colon \<notin> set (link_name n)"
      "fslash \<notin> set (link_name n)"
    by (auto simp: valid_name_def)
  moreover from this(1) assms(2) have "hd (link_name n) \<noteq> bslash"
    by (cases "link_name n") auto
  ultimately show ?thesis
    using assms(2,3) separators_differ by (auto simp: relative_path_def)
qed

lemma single_loop_relative:
  assumes "\<forall>ffd \<in> set ffds. valid_name (cFileName ffd) \<and> link_name (cFileName ffd) \<noteq> [] \<and>
             (\<forall>t. resolve_link e (source_folder @ [bslash] @ cFileName ffd) = Some t \<longrightarrow>
                  valid_listing (FindFirstFileW e (t @ [bslash] @ L ''*'')))"
    and "\<forall>en \<in> set entries. relative_path (rel en)"
  shows "\<forall>en \<in> set (single_loop e source_folder ffds entries). relative_path (rel en)"
  using assms
proof (induction ffds arbitrary: entries)
  case Nil
  then show ?case by simp
next
  case (Cons ffd ffds)
  from Cons.prems(1) have rest: "\<forall>ffd \<in> set ffds. valid_name (cFileName ffd) \<and>
             link_name (cFileName ffd) \<noteq> [] \<and>
             (\<forall>t. resolve_link e (source_folder @ [bslash] @ cFileName ffd) = Some t \<longrightarrow>
                  valid_listing (FindFirstFileW e (t @ [bslash] @ L ''*'')))"
    by simp
  show ?case
  proof (cases "resolve_link e (source_folder @ [bslash] @ cFileName ffd)")
    case None
    with Cons.IH [OF rest Cons.prems(2)] show ?thesis by simp
  next
    case (Some t)
    let ?temp = "collect_entries t t (FindFirstFileW e (t @ [bslash] @ L ''*'')) []"
    let ?new = "map (\<lambda>x. \<lparr>full = full x, rel = link_name (cFileName ffd) @ [bslash] @ rel x\<rparr>) ?temp"
    from Cons.prems(1) Some have v: "valid_name (cFileName ffd)" "link_name (cFileName ffd) \<noteq> []"
        "valid_listing (FindFirstFileW e (t @ [bslash] @ L ''*''))"
      by simp_all
    have "\<forall>en \<in> set ?new. relative_path (rel en)"
      using collect_relative [OF v(3)] prefixed_relative [OF v(1,2)] by auto
    with Cons.prems(2) have "\<forall>en \<in> set (entries @ ?new). relative_path (rel en)"
      by auto
    from Cons.IH [OF rest this] Some show ?thesis
      by (simp add: Let_def)
  qed
qed

lemma archive_name_normalized:
  assumes "relative_path r"
  shows "normalized_path (archive_name r)"
proof -
  from assms obtain c cs where r: "r = c # cs"
    by (cases r) (auto simp: relative_path_def)
  from assms r have c: "c \<noteq> bslash" "c \<noteq> fslash"
    by (auto simp: relative_path_def)
  have "colon \<notin> set (archive_name r)"
    using assms by (auto simp: archive_name_def relative_path_def fslash_def colon_def)
  moreover have "bslash \<notin> set (archive_name r)"
    by (auto simp: archive_name_def fslash_def bslash_def)
  moreover have "archive_name r \<noteq> []" "hd (archive_name r) \<noteq> fslash"
    using c by (simp_all add: r archive_name_def)
  ultimately show ?thesis
    by (simp add: normalized_path_def)
qed

lemma entry_names_written:
  "entry_names (written e entries) = map (\<lambda>en. archive_name (rel en)) (filter (zip_adds e) entries)"
  by (simp add: entry_names_def written_def comp_def)

subsection \<open>Claim C3: the paths inside the archive\<close>

text \<open>
  Claim C3 says that no archivePath begins with a path separator. In single-archive mode
  the path is rewritten to the display name, a backslash and the relative path
  (line 209). A shortcut named \<^verbatim>\<open>.lnk\<close>, a file name like any other, has the empty
  display name: the rewritten path of the file below its target begins with the
  backslash.
\<close>

theorem archive_path_separator_counterexample:
  "valid_name (L ''.lnk'') \<and>
   link_name (L ''.lnk'') = [] \<and>
   resolve_link env_ex (L ''S5'' @ [bslash] @ L ''.lnk'') = Some (L ''dirA'') \<and>
   single_loop env_ex (L ''S5'') [Dirent (L ''.lnk'') 0x20 None] [] =
     [\<lparr>full = L ''dirA'' @ [bslash] @ L ''x.txt'', rel = bslash # L ''x.txt''\<rparr>]"
  by (simp add: link_name_def ex_simps)

text \<open>
  Claim C3, as amended. When the names of the tree are those of a directory listing, the
  path of every entry that \<open>collect_entries\<close> produces is relative: it is not empty, does
  not start with a separator and holds no colon, so no drive letter. The same holds for
  every entry that single-archive mode rewrites, when the shortcut names are valid and
  their display names are not empty. main.c composes these paths with backslashes
  (lines 72 and 209); the name under which the backend stores such a path is not empty,
  has no colon, no leading separator and no backslash: every separator inside the
  archive is a forward slash. The entries of an archive that opens are stored under the
  names of entries that \<open>zip_entries\<close> was given.
\<close>

theorem archive_path_relative:
  "(valid_tree ds \<longrightarrow>
      (\<forall>en \<in> set (collect_entries target target (Some ds) []).
          relative_path (rel en) \<and> normalized_path (archive_name (rel en)))) \<and>
   ((\<forall>ffd \<in> set ffds. valid_name (cFileName ffd) \<and> link_name (cFileName ffd) \<noteq> [] \<and>
        (\<forall>t. resolve_link e (source_folder @ [bslash] @ cFileName ffd) = Some t \<longrightarrow>
             valid_listing (FindFirstFileW e (t @ [bslash] @ L ''*'')))) \<longrightarrow>
      (\<forall>en \<in> set (single_loop e source_folder ffds []).
          relative_path (rel en) \<and> normalized_path (archive_name (rel en)))) \<and>
   (mz_zip_writer_open_file e p \<longrightarrow>
      (\<exists>files. archives (zip_entries e p entries w) (file_of_path e p) = Some files \<and>
         set (entry_names files) \<subseteq> (\<lambda>en. archive_name (rel en)) ` set entries))"
proof (intro conjI impI)
  assume "valid_tree ds"
  then have "valid_listing (Some ds)"
    by (simp add: valid_listing_def)
  then show "\<forall>en \<in> set (collect_entries target target (Some ds) []).
      relative_path (rel en) \<and> normalized_path (archive_name (rel en))"
    using collect_relative archive_name_normalized by blast
next
  assume "\<forall>ffd \<in> set ffds. valid_name (cFileName ffd) \<and> link_name (cFileName ffd) \<noteq> [] \<and>
        (\<forall>t. resolve_link e (source_folder @ [bslash] @ cFileName ffd) = Some t \<longrightarrow>
             valid_listing (FindFirstFileW e (t @ [bslash] @ L ''*'')))"
  then have "\<forall>en \<in> set (single_loop e source_folder ffds []). relative_path (rel en)"
    by (rule single_loop_relative) simp
  then show "\<forall>en \<in> set (single_loop e source_folder ffds []).
      relative_path (rel en) \<and> normalized_path (archive_name (rel en))"
    using archive_name_normalized by blast
next
  assume "mz_zip_writer_open_file e p"
  then have "archives (zip_entries e p entries w) (file_of_path e p) = Some (written e entries)"
    by (simp add: zip_entries_archives)
  moreover have "set (entry_names (written e entries)) \<subseteq>
                   (\<lambda>en. archive_name (rel en)) ` set entries"
    by (auto simp: entry_names_written)
  ultimately show "\<exists>files. archives (zip_entries e p entries w) (file_of_path e p) = Some files \<and>
         set (entry_names files) \<subseteq> (\<lambda>en. archive_name (rel en)) ` set entries"
    by blast
qed

text \<open>
  The target \<open>tree_ex\<close>, and single-archive mode on the folder \<^verbatim>\<open>S\<close>: the paths as
  main.c composes them, and the names under which the archive stores them.
\<close>

theorem archive_path_relative_witness:
  "valid_tree tree_ex \<and>
   list_all (\<lambda>ffd. valid_name (cFileName ffd) \<and> link_name (cFileName ffd) \<noteq> [] \<and>
        (\<forall>t. resolve_link env_ex (L ''S'' @ [bslash] @ cFileName ffd) = Some t \<longrightarrow>
             valid_listing (FindFirstFileW env_ex (t @ [bslash] @ L ''*''))))
     [Dirent (L ''A.lnk'') 0x20 None, Dirent (L ''Broken.lnk'') 0x20 None,
      Dirent (L ''B.lnk'') 0x20 None] \<and>
   mz_zip_writer_open_file env_ex (L ''out.zip'') \<and>
   map rel (collect_entries (L ''T'') (L ''T'') (Some tree_ex) []) =
     [L ''sub'', L ''sub'' @ [bslash] @ L ''a.txt'', L ''b.txt''] \<and>
   map (\<lambda>en. archive_name (rel en)) (collect_entries (L ''T'') (L ''T'') (Some tree_ex) []) =
     [L ''sub'', L ''sub/a.txt'', L ''b.txt''] \<and>
   list_all (\<lambda>en. relative_path (rel en) \<and> normalized_path (archive_name (rel en)))
     (collect_entries (L ''T'') (L ''T'') (Some tree_ex) []) \<and>
   map (\<lambda>en. archive_name (rel en)) (single_loop env_ex (L ''S'')
     [Dirent (L ''A.lnk'') 0x20 None, Dirent (L ''Broken.lnk'') 0x20 None,
      Dirent (L ''B.lnk'') 0x20 None] []) =
     [L ''A/x.txt'', L ''B/y.txt''] \<and>
   list_all (\<lambda>en. relative_path (rel en) \<and> normalized_path (archive_name (rel en)))
     (single_loop env_ex (L ''S'')
       [Dirent (L ''A.lnk'') 0x20 None, Dirent (L ''Broken.lnk'') 0x20 None,
        Dirent (L ''B.lnk'') 0x20 None] []) \<and>
   (\<exists>files. archives (zip_entries env_ex (L ''out.zip'')
                (collect_entries (L ''T'') (L ''T'') (Some tree_ex) []) world0)
              (file_of_path env_ex (L ''out.zip'')) = Some files \<and>
      set (entry_names files) \<subseteq>
        (\<lambda>en. archive_name (rel en)) ` set (collect_entries (L ''T'') (L ''T'') (Some tree_ex) []))"
proof -
  let ?ffds = "[Dirent (L ''A.lnk'') 0x20 None, Dirent (L ''Broken.lnk'') 0x20 None,
                Dirent (L ''B.lnk'') 0x20 None]"
  have h1: "valid_tree tree_ex"
    by (simp add: ex_simps)
  have h2: "\<forall>ffd \<in> set ?ffds. valid_name (cFileName ffd) \<and> link_name (cFileName ffd) \<noteq> [] \<and>
        (\<forall>t. resolve_link env_ex (L ''S'' @ [bslash] @ cFileName ffd) = Some t \<longrightarrow>
             valid_listing (FindFirstFileW env_ex (t @ [bslash] @ L ''*'')))"
    by (auto simp: link_name_def valid_listing_def ex_simps)
  have h3: "mz_zip_writer_open_file env_ex (L ''out.zip'')"
    by (simp add: env_ex_def)
  have e1: "map rel (collect_entries (L ''T'') (L ''T'') (Some tree_ex) []) =
     [L ''sub'', L ''sub'' @ [bslash] @ L ''a.txt'', L ''b.txt'']"
    by (simp add: ex_simps)
  have e2: "map (\<lambda>en. archive_name (rel en)) (collect_entries (L ''T'') (L ''T'') (Some tree_ex) []) =
     [L ''sub'', L ''sub/a.txt'', L ''b.txt'']"
    by (simp add: archive_name_def ex_simps)
  have e3: "map (\<lambda>en. archive_name (rel en)) (single_loop env_ex (L ''S'') ?ffds []) =
     [L ''A/x.txt'', L ''B/y.txt'']"
    by (simp add: archive_name_def link_name_def ex_simps)
  note t = archive_path_relative [of tree_ex "L ''T''" ?ffds env_ex "L ''S''" "L ''out.zip''"
      "collect_entries (L ''T'') (L ''T'') (Some tree_ex) []" world0]
  from t h1 have c1: "\<forall>en \<in> set (collect_entries (L ''T'') (L ''T'') (Some tree_ex) []).
      relative_path (rel en) \<and> normalized_path (archive_name (rel en))"
    by blast
  from t h2 have c2: "\<forall>en \<in> set (single_loop env_ex (L ''S'') ?ffds []).
      relative_path (rel en) \<and> normalized_path (archive_name (rel en))"
    by blast
  from t h3 have c3: "\<exists>files. archives (zip_entries env_ex (L ''out.zip'')
                (collect_entries (L ''T'') (L ''T'') (Some tree_ex) []) world0)
              (file_of_path env_ex (L ''out.zip'')) = Some files \<and>
      set (entry_names files) \<subseteq>
        (\<lambda>en. archive_name (rel en)) ` set (collect_entries (L ''T'') (L ''T'') (Some tree_ex) [])"
    by blast
  from h1 h2 h3 e1 e2 c1 e3 c2 c3 show ?thesis
    unfolding list_all_iff by (intro conjI)
qed

section \<open>Single-archive mode\<close>

lemma single_loop_concat:
  "single_loop e source_folder ffds entries =
     entries @ concat (map (\<lambda>ffd.
       case resolve_link e (source_folder @ [bslash] @ cFileName ffd) of
         None \<Rightarrow> []
       | Some t \<Rightarrow>
           map (\<lambda>x. \<lparr>full = full x, rel = link_name (cFileName ffd) @ [bslash] @ rel x\<rparr>)
             (collect_entries t t (FindFirstFileW e (t @ [bslash] @ L ''*'')) [])) ffds)"
proof (induction ffds arbitrary: entries)
  case Nil
  then show ?case by simp
next
  case (Cons ffd ffds)
  show ?case
    by (cases "resolve_link e (source_folder @ [bslash] @ cFileName ffd)")
      (simp_all add: Cons.IH Let_def)
qed

lemma single_loop_set:
  "set ffds = set ffds' \<Longrightarrow>
   set (single_loop e source_folder ffds []) = set (single_loop e source_folder ffds' [])"
  by (simp add: single_loop_concat)

lemma link_name_A: "link_name (L ''A.lnk'') = L ''A''"
  by (simp add: link_name_def ex_simps)

lemma link_name_B: "link_name (L ''B.lnk'') = L ''B''"
  by (simp add: link_name_def ex_simps)

lemma PathFilter_include_plain:
  assumes "a AND (FILE_ATTRIBUTE_HIDDEN OR FILE_ATTRIBUTE_SYSTEM) = 0"
    and "name \<noteq> L ''.''" and "name \<noteq> L ''..''" and "\<not> wcsicmp_eq name (L ''desktop.ini'')"
  shows "PathFilter_include name a"
  using assms by (simp add: PathFilter_include_def hidden_or_system_0)

lemma not_PathFilter_include_dots:
  "\<not> PathFilter_include (L ''.'') a" "\<not> PathFilter_include (L ''..'') a"
  by (simp_all add: PathFilter_include_def)

lemma collect_one_file:
  assumes "a AND (FILE_ATTRIBUTE_HIDDEN OR FILE_ATTRIBUTE_SYSTEM) = 0"
    and "a AND FILE_ATTRIBUTE_DIRECTORY = 0"
    and "name \<noteq> L ''.''" and "name \<noteq> L ''..''" and "\<not> wcsicmp_eq name (L ''desktop.ini'')"
  shows "collect_entries t t
           (Some [Dirent (L ''.'') a1 s1, Dirent (L ''..'') a2 s2, Dirent name a s]) [] =
         [\<lparr>full = t @ bslash # name, rel = name\<rparr>]"
  using PathFilter_include_plain [OF assms(1,3,4,5)] assms(2)
  by (simp add: collect_entries_top not_PathFilter_include_dots)

lemma written_one_file:
  assumes "GetFileAttributesW e (t @ bslash # name) AND (FILE_ATTRIBUTE_HIDDEN OR FILE_ATTRIBUTE_SYSTEM) = 0"
    and "GetFileAttributesW e (t @ bslash # name) AND FILE_ATTRIBUTE_DIRECTORY = 0"
    and "bslash \<notin> set name" and "\<not> wcsicmp_eq name (L ''desktop.ini'')"
  shows "zip_adds e \<lparr>full = t @ bslash # name, rel = r\<rparr>"
  using assms by (simp add: zip_adds_def zip_skips_def wcsrchr_append_absent)


lemma wmain_single:
  assumes "source_folder \<noteq> L ''--split''"
  shows "wmain e argv0 [source_folder, output] w =
     (let entries =
            (case FindFirstFileW e (source_folder @ [bslash] @ L ''*.lnk'') of
               None \<Rightarrow> []
             | Some ffds \<Rightarrow> single_loop e source_folder ffds [])
      in if entries = []
         then (1, w\<lparr>console := console w @ [NoFilesToArchive]\<rparr>)
         else (0, zip_entries e output entries w))"
  using assms by (simp add: wmain_def Let_def)

lemma archive_name_prefixed:
  "archive_name (n @ [bslash] @ r) = archive_name n @ [fslash] @ archive_name r"
  by (simp add: archive_name_def)

lemma single_loop_archive_names:
  "map (\<lambda>en. archive_name (rel en)) (single_loop e source_folder ffds []) =
     concat (map (\<lambda>ffd.
       case resolve_link e (source_folder @ [bslash] @ cFileName ffd) of
         None \<Rightarrow> []
       | Some t \<Rightarrow>
           map (\<lambda>x. archive_name (link_name (cFileName ffd)) @ [fslash] @ archive_name (rel x))
             (collect_entries t t (FindFirstFileW e (t @ [bslash] @ L ''*'')) [])) ffds)"
proof -
  have "map (\<lambda>en. archive_name (rel en))
          (case resolve_link e (source_folder @ [bslash] @ cFileName ffd) of
             None \<Rightarrow> []
           | Some t \<Rightarrow>
               map (\<lambda>x. \<lparr>full = full x, rel = link_name (cFileName ffd) @ [bslash] @ rel x\<rparr>)
                 (collect_entries t t (FindFirstFileW e (t @ [bslash] @ L ''*'')) [])) =
        (case resolve_link e (source_folder @ [bslash] @ cFileName ffd) of
           None \<Rightarrow> []
         | Some t \<Rightarrow>
             map (\<lambda>x. archive_name (link_name (cFileName ffd)) @ [fslash] @ archive_name (rel x))
               (collect_entries t t (FindFirstFileW e (t @ [bslash] @ L ''*'')) []))" for ffd
    using archive_name_prefixed by (simp add: comp_def split: option.splits)
  then show ?thesis
    unfolding single_loop_concat by (simp add: map_concat comp_def)
qed

subsection \<open>Claim C5: single-archive mode\<close>

text \<open>
  Claim C5. In single-archive mode the merged list is, shortcut by shortcut in
  enumeration order, the entries collected from the target of each shortcut that
  resolves, the path of each rewritten to the display name, a separator and the original
  relative path (line 209); as a set it depends only on the set of shortcuts, not on
  their order. main.c writes the separator as a backslash; inside the archive the entry
  is stored under the display name, a forward slash and the original relative path.
  When the shortcuts are \<^verbatim>\<open>A.lnk\<close> to a directory holding \<^verbatim>\<open>x.txt\<close> and
  \<^verbatim>\<open>B.lnk\<close> to a directory holding \<^verbatim>\<open>y.txt\<close>, enumerated in any order, and the
  archive opens, the names handed to the backend are \<^verbatim>\<open>A\x.txt\<close> and
  \<^verbatim>\<open>B\y.txt\<close>, and the names of the entries of the archive are \<^verbatim>\<open>A/x.txt\<close> and
  \<^verbatim>\<open>B/y.txt\<close>.
\<close>

theorem single_archive_prefix:
  assumes src: "source_folder \<noteq> L ''--split''"
    and lnk: "FindFirstFileW e (source_folder @ [bslash] @ L ''*.lnk'') = Some lnks"
    and order: "cFileName ` set lnks = {L ''A.lnk'', L ''B.lnk''}"
    and rA: "resolve_link e (source_folder @ [bslash] @ L ''A.lnk'') = Some dirA"
    and rB: "resolve_link e (source_folder @ [bslash] @ L ''B.lnk'') = Some dirB"
    and lA: "FindFirstFileW e (dirA @ [bslash] @ L ''*'') =
               Some [Dirent (L ''.'') a1 s1, Dirent (L ''..'') a2 s2, Dirent (L ''x.txt'') ax sx]"
    and lB: "FindFirstFileW e (dirB @ [bslash] @ L ''*'') =
               Some [Dirent (L ''.'') b1 t1, Dirent (L ''..'') b2 t2, Dirent (L ''y.txt'') ay sy]"
    and ax: "ax AND (FILE_ATTRIBUTE_HIDDEN OR FILE_ATTRIBUTE_SYSTEM) = 0"
            "ax AND FILE_ATTRIBUTE_DIRECTORY = 0"
    and ay: "ay AND (FILE_ATTRIBUTE_HIDDEN OR FILE_ATTRIBUTE_SYSTEM) = 0"
            "ay AND FILE_ATTRIBUTE_DIRECTORY = 0"
    and gA: "GetFileAttributesW e (dirA @ [bslash] @ L ''x.txt'') = ax"
    and gB: "GetFileAttributesW e (dirB @ [bslash] @ L ''y.txt'') = ay"
    and op: "mz_zip_writer_open_file e output"
  shows "single_loop e source_folder ffds [] =
           concat (map (\<lambda>ffd.
             case resolve_link e (source_folder @ [bslash] @ cFileName ffd) of
               None \<Rightarrow> []
             | Some t \<Rightarrow>
                 map (\<lambda>x. \<lparr>full = full x, rel = link_name (cFileName ffd) @ [bslash] @ rel x\<rparr>)
                   (collect_entries t t (FindFirstFileW e (t @ [bslash] @ L ''*'')) [])) ffds) \<and>
         map (\<lambda>en. archive_name (rel en)) (single_loop e source_folder ffds []) =
           concat (map (\<lambda>ffd.
             case resolve_link e (source_folder @ [bslash] @ cFileName ffd) of
               None \<Rightarrow> []
             | Some t \<Rightarrow>
                 map (\<lambda>x. archive_name (link_name (cFileName ffd)) @ [fslash] @
                             archive_name (rel x))
                   (collect_entries t t (FindFirstFileW e (t @ [bslash] @ L ''*'')) [])) ffds) \<and>
         (set ffds = set ffds' \<longrightarrow>
            set (single_loop e source_folder ffds []) = set (single_loop e source_folder ffds' [])) \<and>
         (\<exists>files. archives (snd (wmain e argv0 [source_folder, output] w)) (file_of_path e output)
                     = Some files \<and>
            set (map snd files) =
              {L ''A'' @ [bslash] @ L ''x.txt'', L ''B'' @ [bslash] @ L ''y.txt''} \<and>
            set (entry_names files) = {L ''A/x.txt'', L ''B/y.txt''})"
proof (intro conjI impI)
  show "single_loop e source_folder ffds [] =
           concat (map (\<lambda>ffd.
             case resolve_link e (source_folder @ [bslash] @ cFileName ffd) of
               None \<Rightarrow> []
             | Some t \<Rightarrow>
                 map (\<lambda>x. \<lparr>full = full x, rel = link_name (cFileName ffd) @ [bslash] @ rel x\<rparr>)
                   (collect_entries t t (FindFirstFileW e (t @ [bslash] @ L ''*'')) [])) ffds)"
    by (simp add: single_loop_concat)
next
  show "map (\<lambda>en. archive_name (rel en)) (single_loop e source_folder ffds []) =
           concat (map (\<lambda>ffd.
             case resolve_link e (source_folder @ [bslash] @ cFileName ffd) of
               None \<Rightarrow> []
             | Some t \<Rightarrow>
                 map (\<lambda>x. archive_name (link_name (cFileName ffd)) @ [fslash] @
                             archive_name (rel x))
                   (collect_entries t t (FindFirstFileW e (t @ [bslash] @ L ''*'')) [])) ffds)"
    by (rule single_loop_archive_names)
next
  assume "set ffds = set ffds'"
  then show "set (single_loop e source_folder ffds []) = set (single_loop e source_folder ffds' [])"
    by (rule single_loop_set)
next
  let ?enA = "\<lparr>full = dirA @ bslash # L ''x.txt'', rel = L ''A'' @ [bslash] @ L ''x.txt''\<rparr>"
  let ?enB = "\<lparr>full = dirB @ bslash # L ''y.txt'', rel = L ''B'' @ [bslash] @ L ''y.txt''\<rparr>"
  have names: "L ''x.txt'' \<noteq> L ''.''" "L ''x.txt'' \<noteq> L ''..''"
      "\<not> wcsicmp_eq (L ''x.txt'') (L ''desktop.ini'')" "bslash \<notin> set (L ''x.txt'')"
      "L ''y.txt'' \<noteq> L ''.''" "L ''y.txt'' \<noteq> L ''..''"
      "\<not> wcsicmp_eq (L ''y.txt'') (L ''desktop.ini'')" "bslash \<notin> set (L ''y.txt'')"
    by (simp_all add: ex_simps)
  have colA: "collect_entries dirA dirA (FindFirstFileW e (dirA @ [bslash] @ L ''*'')) [] =
                [\<lparr>full = dirA @ bslash # L ''x.txt'', rel = L ''x.txt''\<rparr>]"
    unfolding lA by (rule collect_one_file [OF ax names(1,2,3)])
  have colB: "collect_entries dirB dirB (FindFirstFileW e (dirB @ [bslash] @ L ''*'')) [] =
                [\<lparr>full = dirB @ bslash # L ''y.txt'', rel = L ''y.txt''\<rparr>]"
    unfolding lB by (rule collect_one_file [OF ay names(5,6,7)])
  define c where "c = (\<lambda>ffd. case resolve_link e (source_folder @ [bslash] @ cFileName ffd) of
              None \<Rightarrow> []
            | Some t \<Rightarrow>
                map (\<lambda>x. \<lparr>full = full x, rel = link_name (cFileName ffd) @ [bslash] @ rel x\<rparr>)
                  (collect_entries t t (FindFirstFileW e (t @ [bslash] @ L ''*'')) []))"
  have cA: "c ffd = [?enA]" if "cFileName ffd = L ''A.lnk''" for ffd
    using that rA colA by (simp add: c_def link_name_A)
  have cB: "c ffd = [?enB]" if "cFileName ffd = L ''B.lnk''" for ffd
    using that rB colB by (simp add: c_def link_name_B)
  have "set (single_loop e source_folder lnks []) = (\<Union>ffd \<in> set lnks. set (c ffd))"
    by (simp add: single_loop_concat c_def)
  also have "\<dots> = {?enA, ?enB}"
  proof (intro equalityI subsetI)
    fix x assume "x \<in> (\<Union>ffd \<in> set lnks. set (c ffd))"
    then obtain ffd where f: "ffd \<in> set lnks" "x \<in> set (c ffd)"
      by blast
    with order have "cFileName ffd = L ''A.lnk'' \<or> cFileName ffd = L ''B.lnk''"
      by blast
    with f(2) cA cB show "x \<in> {?enA, ?enB}"
      by auto
  next
    fix x assume x: "x \<in> {?enA, ?enB}"
    from order have "L ''A.lnk'' \<in> cFileName ` set lnks" "L ''B.lnk'' \<in> cFileName ` set lnks"
      by simp_all
    then obtain fa fb where fa: "fa \<in> set lnks" "cFileName fa = L ''A.lnk''"
      and fb: "fb \<in> set lnks" "cFileName fb = L ''B.lnk''"
      by auto
    from x show "x \<in> (\<Union>ffd \<in> set lnks. set (c ffd))"
    proof
      assume "x = ?enA"
      then show ?thesis
        by (intro UN_I [OF fa(1)]) (simp add: cA [OF fa(2)])
    next
      assume "x \<in> {?enB}"
      then show ?thesis
        by (intro UN_I [OF fb(1)]) (simp add: cB [OF fb(2)])
    qed
  qed
  finally have entries: "set (single_loop e source_folder lnks []) = {?enA, ?enB}" .
  then have ne: "single_loop e source_folder lnks [] \<noteq> []"
    by auto
  have addA: "zip_adds e ?enA"
    using gA ax names by (intro written_one_file) simp_all
  have addB: "zip_adds e ?enB"
    using gB ay names by (intro written_one_file) simp_all
  have run: "archives (snd (wmain e argv0 [source_folder, output] w)) (file_of_path e output) =
               Some (written e (single_loop e source_folder lnks []))"
    using ne op lnk by (simp add: wmain_single [OF src] Let_def zip_entries_archives)
  have nA: "archive_name (L ''A'' @ bslash # L ''x.txt'') = L ''A/x.txt''"
    by (simp add: archive_name_def ex_simps)
  have nB: "archive_name (L ''B'' @ bslash # L ''y.txt'') = L ''B/y.txt''"
    by (simp add: archive_name_def ex_simps)
  have "set (entry_names (written e (single_loop e source_folder lnks []))) =
          (\<lambda>en. archive_name (rel en)) ` {en \<in> set (single_loop e source_folder lnks []). zip_adds e en}"
    by (auto simp: entry_names_written)
  also have "\<dots> = {L ''A/x.txt'', L ''B/y.txt''}"
  proof -
    have "{en \<in> {?enA, ?enB}. zip_adds e en} = {?enA, ?enB}"
      using addA addB by blast
    then show ?thesis
      unfolding entries by (simp add: nA nB)
  qed
  finally have stored: "set (entry_names (written e (single_loop e source_folder lnks []))) =
          {L ''A/x.txt'', L ''B/y.txt''}" .
  have "set (map snd (written e (single_loop e source_folder lnks []))) =
          rel ` {en \<in> set (single_loop e source_folder lnks []). zip_adds e en}"
    by (auto simp: written_def)
  also have "\<dots> = {L ''A'' @ [bslash] @ L ''x.txt'', L ''B'' @ [bslash] @ L ''y.txt''}"
  proof -
    have "{en \<in> {?enA, ?enB}. zip_adds e en} = {?enA, ?enB}"
      using addA addB by blast
    then show ?thesis
      unfolding entries by simp
  qed
  finally have "set (map snd (written e (single_loop e source_folder lnks []))) =
          {L ''A'' @ [bslash] @ L ''x.txt'', L ''B'' @ [bslash] @ L ''y.txt''}" .
  with run stored show "\<exists>files. archives (snd (wmain e argv0 [source_folder, output] w))
                     (file_of_path e output) = Some files \<and>
            set (map snd files) =
              {L ''A'' @ [bslash] @ L ''x.txt'', L ''B'' @ [bslash] @ L ''y.txt''} \<and>
            set (entry_names files) = {L ''A/x.txt'', L ''B/y.txt''}"
    by blast
qed

text \<open>
  The folder \<^verbatim>\<open>S\<close> of the example machine, with \<^verbatim>\<open>B.lnk\<close> enumerated before
  \<^verbatim>\<open>A.lnk\<close>.
\<close>

theorem single_archive_prefix_witness:
  "L ''S'' \<noteq> L ''--split'' \<and>
   cFileName ` set [Dirent (L ''B.lnk'') 0x20 None, Dirent (L ''A.lnk'') 0x20 None] =
     {L ''A.lnk'', L ''B.lnk''} \<and>
   (\<exists>files. archives (snd (wmain
        (env_ex\<lparr>FindFirstFileW := (FindFirstFileW env_ex)
           (L ''S'' @ [bslash] @ L ''*.lnk'' :=
              Some [Dirent (L ''B.lnk'') 0x20 None, Dirent (L ''A.lnk'') 0x20 None])\<rparr>)
        (L ''prog'') [L ''S'', L ''out.zip''] world0)) (file_of_path env_ex (L ''out.zip''))
      = Some files \<and>
      set (map snd files) = {L ''A'' @ [bslash] @ L ''x.txt'', L ''B'' @ [bslash] @ L ''y.txt''} \<and>
      set (entry_names files) = {L ''A/x.txt'', L ''B/y.txt''})"
proof -
  let ?lnks = "[Dirent (L ''B.lnk'') 0x20 None, Dirent (L ''A.lnk'') 0x20 None]"
  let ?e = "env_ex\<lparr>FindFirstFileW := (FindFirstFileW env_ex)
           (L ''S'' @ [bslash] @ L ''*.lnk'' := Some ?lnks)\<rparr>"
  have src: "L ''S'' \<noteq> L ''--split''"
    by (simp add: L_def)
  have lnk: "FindFirstFileW ?e (L ''S'' @ [bslash] @ L ''*.lnk'') = Some ?lnks"
    by simp
  have order: "cFileName ` set ?lnks = {L ''A.lnk'', L ''B.lnk''}"
    by auto
  have rA: "resolve_link ?e (L ''S'' @ [bslash] @ L ''A.lnk'') = Some (L ''dirA'')"
    by (simp add: ex_simps)
  have rB: "resolve_link ?e (L ''S'' @ [bslash] @ L ''B.lnk'') = Some (L ''dirB'')"
    by (simp add: ex_simps)
  have lA: "FindFirstFileW ?e (L ''dirA'' @ [bslash] @ L ''*'') =
      Some [Dirent (L ''.'') 0x10 None, Dirent (L ''..'') 0x10 None, Dirent (L ''x.txt'') 0x20 None]"
    by (simp add: ex_simps)
  have lB: "FindFirstFileW ?e (L ''dirB'' @ [bslash] @ L ''*'') =
      Some [Dirent (L ''.'') 0x10 None, Dirent (L ''..'') 0x10 None, Dirent (L ''y.txt'') 0x20 None]"
    by (simp add: ex_simps)
  have a: "(0x20 :: DWORD) AND (FILE_ATTRIBUTE_HIDDEN OR FILE_ATTRIBUTE_SYSTEM) = 0"
      "(0x20 :: DWORD) AND FILE_ATTRIBUTE_DIRECTORY = 0"
    by (simp_all add: ex_simps)
  have gA: "GetFileAttributesW ?e (L ''dirA'' @ [bslash] @ L ''x.txt'') = 0x20"
    by (simp add: ex_simps)
  have gB: "GetFileAttributesW ?e (L ''dirB'' @ [bslash] @ L ''y.txt'') = 0x20"
    by (simp add: ex_simps)
  have op: "mz_zip_writer_open_file ?e (L ''out.zip'')"
    by (simp add: ex_simps)
  have fp: "file_of_path ?e = file_of_path env_ex"
    by simp
  from single_archive_prefix [OF src lnk order rA rB lA lB a a gA gB op, of "[]" "[]" "L ''prog''" world0]
  have "\<exists>files. archives (snd (wmain ?e (L ''prog'') [L ''S'', L ''out.zip''] world0))
          (file_of_path ?e (L ''out.zip'')) = Some files \<and>
      set (map snd files) = {L ''A'' @ [bslash] @ L ''x.txt'', L ''B'' @ [bslash] @ L ''y.txt''} \<and>
      set (entry_names files) = {L ''A/x.txt'', L ''B/y.txt''}"
    by (rule conjunct2 [THEN conjunct2, THEN conjunct2])
  then have "\<exists>files. archives (snd (wmain ?e (L ''prog'') [L ''S'', L ''out.zip''] world0))
          (file_of_path env_ex (L ''out.zip'')) = Some files \<and>
      set (map snd files) = {L ''A'' @ [bslash] @ L ''x.txt'', L ''B'' @ [bslash] @ L ''y.txt''} \<and>
      set (entry_names files) = {L ''A/x.txt'', L ''B/y.txt''}"
    unfolding fp .
  with src order show ?thesis
    by (intro conjI)
qed

section \<open>Split mode\<close>

lemma split_loop_Cons:
  "split_loop e source_folder output (ffd # ffds) w =
     split_loop e source_folder output ffds
       (case resolve_link e (source_folder @ [bslash] @ cFileName ffd) of
          None \<Rightarrow> w
        | Some t \<Rightarrow>
            zip_entries e (output @ [bslash] @ link_name (cFileName ffd) @ L ''.zip'')
              (collect_entries t t (FindFirstFileW e (t @ [bslash] @ L ''*'')) []) w)"
  by (simp add: Let_def split: option.splits)

lemma split_loop_foldl:
  "split_loop e source_folder output ffds w =
     foldl (\<lambda>w ffd.
        case resolve_link e (source_folder @ [bslash] @ cFileName ffd) of
          None \<Rightarrow> w
        | Some t \<Rightarrow>
            zip_entries e (output @ [bslash] @ link_name (cFileName ffd) @ L ''.zip'')
              (collect_entries t t (FindFirstFileW e (t @ [bslash] @ L ''*'')) []) w) w ffds"
proof (induction ffds arbitrary: w)
  case Nil
  then show ?case by simp
next
  case (Cons ffd ffds)
  show ?case
    unfolding split_loop_Cons Cons.IH by simp
qed

lemma split_loop_append:
  "split_loop e source_folder output (xs @ ys) w =
     split_loop e source_folder output ys (split_loop e source_folder output xs w)"
  by (simp add: split_loop_foldl)

lemma split_step_archives:
  "archives (case resolve_link e (source_folder @ [bslash] @ cFileName ffd) of
          None \<Rightarrow> w
        | Some t \<Rightarrow>
            zip_entries e (output @ [bslash] @ link_name (cFileName ffd) @ L ''.zip'')
              (collect_entries t t (FindFirstFileW e (t @ [bslash] @ L ''*'')) []) w) q =
     (if produces e source_folder output q ffd
      then Some (shortcut_files e source_folder ffd)
      else archives w q)"
  by (auto simp: produces_def shortcut_files_def target_files_def zip_path_of_def
      zip_entries_archives split: option.splits)

lemma split_loop_archives:
  "archives (split_loop e source_folder output ffds w) q =
     (if filter (produces e source_folder output q) ffds = [] then archives w q
      else Some (shortcut_files e source_folder
                   (last (filter (produces e source_folder output q) ffds))))"
proof (induction ffds rule: rev_induct)
  case Nil
  then show ?case by simp
next
  case (snoc ffd ffds)
  have "archives (split_loop e source_folder output (ffds @ [ffd]) w) q =
        (if produces e source_folder output q ffd
         then Some (shortcut_files e source_folder ffd)
         else archives (split_loop e source_folder output ffds w) q)"
    unfolding split_loop_append split_loop_Cons split_loop.simps(1)
    by (rule split_step_archives)
  then show ?case
    using snoc.IH by simp
qed

lemma split_loop_unresolved:
  assumes "resolve_link e (source_folder @ [bslash] @ cFileName ffd) = None"
  shows "split_loop e source_folder output (xs @ ffd # ys) w =
         split_loop e source_folder output (xs @ ys) w"
  using assms by (simp add: split_loop_append split_loop_Cons)

lemma split_loop_own_archive:
  assumes mem: "ffd \<in> set ffds"
    and res: "resolve_link e (source_folder @ [bslash] @ cFileName ffd) = Some t"
    and op: "mz_zip_writer_open_file e (output @ [bslash] @ link_name (cFileName ffd) @ L ''.zip'')"
    and uniq: "\<forall>g \<in> set ffds.
                 resolve_link e (source_folder @ [bslash] @ cFileName g) \<noteq> None \<and>
                 file_of_path e (output @ [bslash] @ link_name (cFileName g) @ L ''.zip'') =
                 file_of_path e (output @ [bslash] @ link_name (cFileName ffd) @ L ''.zip'')
                 \<longrightarrow> g = ffd"
  shows "archives (split_loop e source_folder output ffds w)
           (file_of_path e (output @ [bslash] @ link_name (cFileName ffd) @ L ''.zip'')) =
         Some (written e (collect_entries t t (FindFirstFileW e (t @ [bslash] @ L ''*'')) []))"
proof -
  let ?q = "file_of_path e (zip_path_of output (cFileName ffd))"
  let ?fs = "filter (produces e source_folder output ?q) ffds"
  have p: "produces e source_folder output ?q ffd"
    using res op by (simp add: produces_def zip_path_of_def)
  with mem have ne: "?fs \<noteq> []"
    by (auto simp: filter_empty_conv)
  have "g = ffd" if "g \<in> set ?fs" for g
  proof -
    from that have "g \<in> set ffds" "produces e source_folder output ?q g"
      by simp_all
    then show ?thesis
      using uniq by (auto simp: produces_def zip_path_of_def split: option.splits)
  qed
  with ne have "last ?fs = ffd"
    using last_in_set by blast
  with ne have "archives (split_loop e source_folder output ffds w) ?q =
                Some (shortcut_files e source_folder ffd)"
    by (simp add: split_loop_archives)
  then show ?thesis
    using res by (simp add: shortcut_files_def target_files_def zip_path_of_def)
qed

subsection \<open>Claim C6: split mode\<close>

text \<open>
  Claim C6 promises one archive for every shortcut that resolves. An archive that cannot
  be opened is reported and not produced (lines 116-120): with two shortcuts that
  resolve and no archive that opens, split mode leaves no archive at all and still exits
  with 0.
\<close>

theorem split_mode_open_failure_counterexample:
  "resolve_link env_ex (L ''S'' @ [bslash] @ L ''A.lnk'') = Some (L ''dirA'') \<and>
   resolve_link env_ex (L ''S'' @ [bslash] @ L ''B.lnk'') = Some (L ''dirB'') \<and>
   wmain (env_ex\<lparr>mz_zip_writer_open_file := \<lambda>p. False\<rparr>) (L ''prog'')
       [L ''--split'', L ''S'', L ''O''] world0 =
     (0, \<lparr>console = [CannotOpen (L ''O'' @ [bslash] @ L ''A.zip''),
                      CannotOpen (L ''O'' @ [bslash] @ L ''B.zip'')],
          archives = Map.empty\<rparr>)"
  by (simp add: wmain_def zip_entries_def link_name_def ex_simps)

text \<open>
  Claim C6, as amended. Split mode runs \<open>zip_entries\<close> once for every shortcut that
  resolves, in enumeration order, on the path made of the output directory, a backslash,
  the display name and \<^verbatim>\<open>.zip\<close>, with the entries collected from the target and
  their paths left without a prefix. A shortcut that does not resolve changes nothing:
  the run is the run without it. After the run, a file \<open>q\<close> holds the archive of the last
  shortcut that resolves and whose archive path opens and names \<open>q\<close>, and is as it was
  before the run when there is no such shortcut. So a shortcut that resolves, whose
  archive opens and whose archive path names a file that the archive path of no other
  resolving shortcut names, ends with its own archive, which holds what \<open>zip_entries\<close>
  adds for its target.
\<close>

theorem split_mode_jobs:
  "split_loop e source_folder output ffds w =
     foldl (\<lambda>w ffd.
        case resolve_link e (source_folder @ [bslash] @ cFileName ffd) of
          None \<Rightarrow> w
        | Some t \<Rightarrow>
            zip_entries e (output @ [bslash] @ link_name (cFileName ffd) @ L ''.zip'')
              (collect_entries t t (FindFirstFileW e (t @ [bslash] @ L ''*'')) []) w) w ffds \<and>
   (resolve_link e (source_folder @ [bslash] @ cFileName bad) = None \<longrightarrow>
      split_loop e source_folder output (xs @ bad # ys) w =
      split_loop e source_folder output (xs @ ys) w) \<and>
   archives (split_loop e source_folder output ffds w) q =
     (if filter (produces e source_folder output q) ffds = [] then archives w q
      else Some (shortcut_files e source_folder
                   (last (filter (produces e source_folder output q) ffds)))) \<and>
   (ffd \<in> set ffds \<and>
    resolve_link e (source_folder @ [bslash] @ cFileName ffd) = Some t \<and>
    mz_zip_writer_open_file e (output @ [bslash] @ link_name (cFileName ffd) @ L ''.zip'') \<and>
    (\<forall>g \<in> set ffds.
        resolve_link e (source_folder @ [bslash] @ cFileName g) \<noteq> None \<and>
        file_of_path e (output @ [bslash] @ link_name (cFileName g) @ L ''.zip'') =
        file_of_path e (output @ [bslash] @ link_name (cFileName ffd) @ L ''.zip'')
        \<longrightarrow> g = ffd) \<longrightarrow>
      archives (split_loop e source_folder output ffds w)
        (file_of_path e (output @ [bslash] @ link_name (cFileName ffd) @ L ''.zip'')) =
      Some (written e (collect_entries t t (FindFirstFileW e (t @ [bslash] @ L ''*'')) [])))"
proof (intro conjI impI)
  show "split_loop e source_folder output ffds w =
     foldl (\<lambda>w ffd.
        case resolve_link e (source_folder @ [bslash] @ cFileName ffd) of
          None \<Rightarrow> w
        | Some t \<Rightarrow>
            zip_entries e (output @ [bslash] @ link_name (cFileName ffd) @ L ''.zip'')
              (collect_entries t t (FindFirstFileW e (t @ [bslash] @ L ''*'')) []) w) w ffds"
    by (rule split_loop_foldl)
next
  assume "resolve_link e (source_folder @ [bslash] @ cFileName bad) = None"
  then show "split_loop e source_folder output (xs @ bad # ys) w =
      split_loop e source_folder output (xs @ ys) w"
    by (rule split_loop_unresolved)
next
  show "archives (split_loop e source_folder output ffds w) q =
     (if filter (produces e source_folder output q) ffds = [] then archives w q
      else Some (shortcut_files e source_folder
                   (last (filter (produces e source_folder output q) ffds))))"
    by (rule split_loop_archives)
next
  assume a: "ffd \<in> set ffds \<and>
    resolve_link e (source_folder @ [bslash] @ cFileName ffd) = Some t \<and>
    mz_zip_writer_open_file e (output @ [bslash] @ link_name (cFileName ffd) @ L ''.zip'') \<and>
    (\<forall>g \<in> set ffds.
        resolve_link e (source_folder @ [bslash] @ cFileName g) \<noteq> None \<and>
        file_of_path e (output @ [bslash] @ link_name (cFileName g) @ L ''.zip'') =
        file_of_path e (output @ [bslash] @ link_name (cFileName ffd) @ L ''.zip'')
        \<longrightarrow> g = ffd)"
  show "archives (split_loop e source_folder output ffds w)
        (file_of_path e (output @ [bslash] @ link_name (cFileName ffd) @ L ''.zip'')) =
      Some (written e (collect_entries t t (FindFirstFileW e (t @ [bslash] @ L ''*'')) []))"
    by (rule split_loop_own_archive) (use a in blast)+
qed

text \<open>
  The folder \<^verbatim>\<open>S\<close>: \<^verbatim>\<open>Broken.lnk\<close> does not resolve and changes nothing, and
  \<^verbatim>\<open>B.lnk\<close> ends with its own archive. The folder \<^verbatim>\<open>S4\<close>: the display names
  \<^verbatim>\<open>A\<close> and \<^verbatim>\<open>a\<close> differ, their archive paths name one file, and that file ends
  with the archive of the shortcut enumerated last.
\<close>

theorem split_mode_jobs_witness:
  "resolve_link env_ex (L ''S'' @ [bslash] @ L ''Broken.lnk'') = None \<and>
   split_loop env_ex (L ''S'') (L ''O'')
       [Dirent (L ''A.lnk'') 0x20 None, Dirent (L ''Broken.lnk'') 0x20 None,
        Dirent (L ''B.lnk'') 0x20 None] world0 =
     split_loop env_ex (L ''S'') (L ''O'')
       [Dirent (L ''A.lnk'') 0x20 None, Dirent (L ''B.lnk'') 0x20 None] world0 \<and>
   resolve_link env_ex (L ''S'' @ [bslash] @ L ''B.lnk'') = Some (L ''dirB'') \<and>
   mz_zip_writer_open_file env_ex (L ''O'' @ [bslash] @ L ''B'' @ L ''.zip'') \<and>
   written env_ex (collect_entries (L ''dirB'') (L ''dirB'')
       (FindFirstFileW env_ex (L ''dirB'' @ [bslash] @ L ''*'')) []) =
     [(L ''dirB'' @ [bslash] @ L ''y.txt'', L ''y.txt'')] \<and>
   archives (split_loop env_ex (L ''S'') (L ''O'')
       [Dirent (L ''A.lnk'') 0x20 None, Dirent (L ''Broken.lnk'') 0x20 None,
        Dirent (L ''B.lnk'') 0x20 None] world0)
     (file_of_path env_ex (L ''O'' @ [bslash] @ L ''B'' @ L ''.zip'')) =
     Some (written env_ex (collect_entries (L ''dirB'') (L ''dirB'')
       (FindFirstFileW env_ex (L ''dirB'' @ [bslash] @ L ''*'')) [])) \<and>
   link_name (L ''A.lnk'') \<noteq> link_name (L ''a'' @ suf @ L ''.lnk'') \<and>
   file_of_path env_ex (L ''O'' @ [bslash] @ L ''A'' @ L ''.zip'') =
     file_of_path env_ex (L ''O'' @ [bslash] @ L ''a'' @ L ''.zip'') \<and>
   archives (split_loop env_ex (L ''S4'') (L ''O'')
       [Dirent (L ''A.lnk'') 0x20 None, Dirent (L ''a'' @ suf @ L ''.lnk'') 0x20 None] world0)
     (file_of_path env_ex (L ''O'' @ [bslash] @ L ''A'' @ L ''.zip'')) =
     Some [(L ''dirB'' @ [bslash] @ L ''y.txt'', L ''y.txt'')]"
proof -
  let ?A = "Dirent (L ''A.lnk'') 0x20 None"
  let ?X = "Dirent (L ''Broken.lnk'') 0x20 None"
  let ?B = "Dirent (L ''B.lnk'') 0x20 None"
  let ?a = "Dirent (L ''a'' @ suf @ L ''.lnk'') 0x20 None"
  let ?q = "file_of_path env_ex (L ''O'' @ [bslash] @ L ''A'' @ L ''.zip'')"
  have h1: "resolve_link env_ex (L ''S'' @ [bslash] @ cFileName ?X) = None"
    by (simp add: ex_simps)
  have h2: "?B \<in> set [?A, ?X, ?B]"
    by simp
  have h3: "resolve_link env_ex (L ''S'' @ [bslash] @ cFileName ?B) = Some (L ''dirB'')"
    by (simp add: ex_simps)
  have h4: "mz_zip_writer_open_file env_ex
              (L ''O'' @ [bslash] @ link_name (cFileName ?B) @ L ''.zip'')"
    by (simp add: ex_simps)
  have h5: "\<forall>g \<in> set [?A, ?X, ?B].
        resolve_link env_ex (L ''S'' @ [bslash] @ cFileName g) \<noteq> None \<and>
        file_of_path env_ex (L ''O'' @ [bslash] @ link_name (cFileName g) @ L ''.zip'') =
        file_of_path env_ex (L ''O'' @ [bslash] @ link_name (cFileName ?B) @ L ''.zip'')
        \<longrightarrow> g = ?B"
    by (simp add: link_name_def ex_simps)
  have e1: "written env_ex (collect_entries (L ''dirB'') (L ''dirB'')
       (FindFirstFileW env_ex (L ''dirB'' @ [bslash] @ L ''*'')) []) =
     [(L ''dirB'' @ [bslash] @ L ''y.txt'', L ''y.txt'')]"
    by (simp add: written_def zip_adds_def zip_skips_def ex_simps)
  have e2: "link_name (L ''A.lnk'') \<noteq> link_name (L ''a'' @ suf @ L ''.lnk'')"
    by (simp add: link_name_def ex_simps)
  have e3: "?q = file_of_path env_ex (L ''O'' @ [bslash] @ L ''a'' @ L ''.zip'')"
    by (simp add: ex_simps)
  have e4: "(if filter (produces env_ex (L ''S4'') (L ''O'') ?q) [?A, ?a] = []
             then archives world0 ?q
             else Some (shortcut_files env_ex (L ''S4'')
                          (last (filter (produces env_ex (L ''S4'') (L ''O'') ?q) [?A, ?a])))) =
            Some [(L ''dirB'' @ [bslash] @ L ''y.txt'', L ''y.txt'')]"
    by (simp add: produces_def shortcut_files_def target_files_def zip_path_of_def
        written_def zip_adds_def zip_skips_def link_name_def ex_simps)
  note t = split_mode_jobs [of env_ex "L ''S''" "L ''O''" "[?A, ?X, ?B]" world0 ?X "[?A]" "[?B]"
      ?q ?B "L ''dirB''"]
  note t4 = split_mode_jobs [of env_ex "L ''S4''" "L ''O''" "[?A, ?a]" world0 ?X "[?A]" "[?B]"
      ?q ?B "L ''dirB''"]
  from t h1 have c1: "split_loop env_ex (L ''S'') (L ''O'') ([?A] @ ?X # [?B]) world0 =
      split_loop env_ex (L ''S'') (L ''O'') ([?A] @ [?B]) world0"
    by blast
  from t h2 h3 h4 h5 have c2: "archives (split_loop env_ex (L ''S'') (L ''O'') [?A, ?X, ?B] world0)
        (file_of_path env_ex (L ''O'' @ [bslash] @ link_name (cFileName ?B) @ L ''.zip'')) =
      Some (written env_ex (collect_entries (L ''dirB'') (L ''dirB'')
        (FindFirstFileW env_ex (L ''dirB'' @ [bslash] @ L ''*'')) []))"
    by blast
  from t4 have "archives (split_loop env_ex (L ''S4'') (L ''O'') [?A, ?a] world0) ?q =
     (if filter (produces env_ex (L ''S4'') (L ''O'') ?q) [?A, ?a] = []
      then archives world0 ?q
      else Some (shortcut_files env_ex (L ''S4'')
                   (last (filter (produces env_ex (L ''S4'') (L ''O'') ?q) [?A, ?a]))))"
    by (rule conjunct2 [THEN conjunct2, THEN conjunct1])
  then have c3: "archives (split_loop env_ex (L ''S4'') (L ''O'') [?A, ?a] world0) ?q =
      Some [(L ''dirB'' @ [bslash] @ L ''y.txt'', L ''y.txt'')]"
    unfolding e4 .
  from h1 c1 h3 h4 e1 c2 have first: "resolve_link env_ex (L ''S'' @ [bslash] @ L ''Broken.lnk'') = None \<and>
   split_loop env_ex (L ''S'') (L ''O'') [?A, ?X, ?B] world0 =
     split_loop env_ex (L ''S'') (L ''O'') [?A, ?B] world0 \<and>
   resolve_link env_ex (L ''S'' @ [bslash] @ L ''B.lnk'') = Some (L ''dirB'') \<and>
   mz_zip_writer_open_file env_ex (L ''O'' @ [bslash] @ L ''B'' @ L ''.zip'') \<and>
   written env_ex (collect_entries (L ''dirB'') (L ''dirB'')
       (FindFirstFileW env_ex (L ''dirB'' @ [bslash] @ L ''*'')) []) =
     [(L ''dirB'' @ [bslash] @ L ''y.txt'', L ''y.txt'')] \<and>
   archives (split_loop env_ex (L ''S'') (L ''O'') [?A, ?X, ?B] world0)
     (file_of_path env_ex (L ''O'' @ [bslash] @ L ''B'' @ L ''.zip'')) =
     Some (written env_ex (collect_entries (L ''dirB'') (L ''dirB'')
       (FindFirstFileW env_ex (L ''dirB'' @ [bslash] @ L ''*'')) []))"
    by (simp add: link_name_B)
  from first e2 e3 c3 show ?thesis
    by blast
qed

lemma single_loop_open_irrelevant:
  "single_loop (e\<lparr>mz_zip_writer_open_file := f\<rparr>) source_folder ffds entries =
   single_loop e source_folder ffds entries"
  by (induction ffds arbitrary: entries) (simp_all add: Let_def split: option.splits)

lemma wmain_usage:
  assumes "if args \<noteq> [] \<and> hd args = L ''--split'' then length args \<noteq> 3 else length args \<noteq> 2"
  shows "wmain e argv0 args w =
           (1, w\<lparr>console := console w @ [Usage argv0 (args \<noteq> [] \<and> hd args = L ''--split'')]\<rparr>)"
  using assms by (cases args) (auto simp: wmain_def Let_def split: if_splits)

lemma wmain_split:
  "wmain e argv0 [L ''--split'', source_folder, output] w =
     (if (case CreateDirectoryW e output of None \<Rightarrow> False | Some err \<Rightarrow> err \<noteq> ERROR_ALREADY_EXISTS)
      then (1, w\<lparr>console := console w @ [CannotCreateDir output]\<rparr>)
      else case FindFirstFileW e (source_folder @ [bslash] @ L ''*.lnk'') of
             None \<Rightarrow> (1, w\<lparr>console := console w @ [NoLnkFound source_folder]\<rparr>)
           | Some ffds \<Rightarrow> (0, split_loop e source_folder output ffds w))"
  by (simp add: wmain_def Let_def split: option.splits)

section \<open>Exit codes and colliding names\<close>

lemma split_loop_open_irrelevant_code:
  "fst (wmain (e\<lparr>mz_zip_writer_open_file := f\<rparr>) argv0 [L ''--split'', s, outp] w) =
   fst (wmain e argv0 [L ''--split'', s, outp] w)"
  by (simp add: wmain_split split: option.splits)

lemma wmain_args_cases:
  obtains (usage) "if args \<noteq> [] \<and> hd args = L ''--split'' then length args \<noteq> 3 else length args \<noteq> 2"
  | (split) s outp where "args = [L ''--split'', s, outp]"
  | (single) s outp where "args = [s, outp]" "s \<noteq> L ''--split''"
proof (cases "args \<noteq> [] \<and> hd args = L ''--split''")
  case True
  show ?thesis
  proof (cases "length args = 3")
    case False
    with True have "if args \<noteq> [] \<and> hd args = L ''--split'' then length args \<noteq> 3
                    else length args \<noteq> 2"
      by simp
    then show ?thesis by (rule usage)
  next
    case l: True
    then obtain a s outp where "args = [a, s, outp]"
      by (auto simp: length_Suc_conv numeral_3_eq_3)
    with True split show ?thesis by simp
  qed
next
  case False
  show ?thesis
  proof (cases "length args = 2")
    case l: False
    with False have "if args \<noteq> [] \<and> hd args = L ''--split'' then length args \<noteq> 3
                     else length args \<noteq> 2"
      by auto
    then show ?thesis by (rule usage)
  next
    case True
    then obtain s outp where "args = [s, outp]"
      by (auto simp: length_Suc_conv numeral_2_eq_2)
    with False single show ?thesis by simp
  qed
qed

lemma wmain_exit_code:
  "fst (wmain e argv0 args w) =
    (if args \<noteq> [] \<and> hd args = L ''--split''
     then (if length args \<noteq> 3 then 1
           else if (case CreateDirectoryW e (args ! 2) of
                      None \<Rightarrow> False
                    | Some err \<Rightarrow> err \<noteq> ERROR_ALREADY_EXISTS) then 1
           else if FindFirstFileW e (args ! 1 @ [bslash] @ L ''*.lnk'') = None then 1
           else 0)
     else (if length args \<noteq> 2 then 1
           else if (case FindFirstFileW e (args ! 0 @ [bslash] @ L ''*.lnk'') of
                      None \<Rightarrow> []
                    | Some ffds \<Rightarrow> single_loop e (args ! 0) ffds []) = [] then 1
           else 0))"
proof (cases args rule: wmain_args_cases)
  case usage
  then show ?thesis
    by (simp add: wmain_usage split: if_splits)
next
  case (split s outp)
  then show ?thesis
    by (simp add: wmain_split split: option.splits)
next
  case (single s outp)
  then show ?thesis
    by (simp add: wmain_single Let_def split: option.splits)
qed

lemma wmain_code_open_irrelevant:
  "fst (wmain (e\<lparr>mz_zip_writer_open_file := f\<rparr>) argv0 args w) = fst (wmain e argv0 args w)"
  unfolding wmain_exit_code by (simp add: single_loop_open_irrelevant cong: option.case_cong)

lemma wmain_single_closed:
  assumes "source_folder \<noteq> L ''--split''"
    and "FindFirstFileW e (source_folder @ [bslash] @ L ''*.lnk'') = Some ffds"
    and "single_loop e source_folder ffds [] \<noteq> []"
    and "\<not> mz_zip_writer_open_file e output"
  shows "wmain e argv0 [source_folder, output] w =
           (0, w\<lparr>console := console w @ [CannotOpen output]\<rparr>)"
  using assms by (simp add: wmain_single Let_def zip_entries_closed)

lemma split_loop_closed:
  assumes "resolve_link e (source_folder @ [bslash] @ cFileName ffd) = Some t"
    and "\<not> mz_zip_writer_open_file e (output @ [bslash] @ link_name (cFileName ffd) @ L ''.zip'')"
  shows "split_loop e source_folder output (ffd # ffds) w =
         split_loop e source_folder output ffds
           (w\<lparr>console := console w @
              [CannotOpen (output @ [bslash] @ link_name (cFileName ffd) @ L ''.zip'')]\<rparr>)"
  using assms by (simp add: split_loop_Cons zip_entries_closed)

subsection \<open>Claim C7: the exit code\<close>

text \<open>
  Claim C7 says that in single-archive mode an archive that cannot be opened makes the
  run exit with a non-zero code, and that an empty result exits with 1.
  \<open>zip_entries\<close> returns nothing to \<open>wmain\<close>: when the archive of single-archive mode
  does not open, the run prints the message, writes no archive and exits with 0. In
  split mode a run in which no shortcut resolves exits with 0 as well.
\<close>

theorem exit_code_open_failure_counterexample:
  "wmain (env_ex\<lparr>mz_zip_writer_open_file := \<lambda>p. False\<rparr>) (L ''prog'')
       [L ''S'', L ''out.zip''] world0 =
     (0, \<lparr>console = [CannotOpen (L ''out.zip'')], archives = Map.empty\<rparr>) \<and>
   wmain (env_ex\<lparr>resolve_link := \<lambda>p. None\<rparr>) (L ''prog'')
       [L ''--split'', L ''S'', L ''O''] world0 =
     (0, \<lparr>console = [], archives = Map.empty\<rparr>)"
  by (simp add: wmain_def zip_entries_def link_name_def ex_simps)

text \<open>
  Claim C7, as amended. The exit code is 1 exactly on a usage error, in split mode when
  the output directory cannot be created (for a reason other than its existence) or when
  the enumeration of the shortcuts fails, and in single-archive mode when the merged list
  is empty; it is 0 in every other case. Whether an archive opens never changes the exit
  code: in single-archive mode a failure to open is reported and the run exits with 0
  without an archive; in split mode the failure is reported, the world is otherwise
  unchanged, and the loop goes on with the remaining shortcuts.
\<close>

theorem exit_code:
  "fst (wmain e argv0 args w) =
    (if args \<noteq> [] \<and> hd args = L ''--split''
     then (if length args \<noteq> 3 then 1
           else if (case CreateDirectoryW e (args ! 2) of
                      None \<Rightarrow> False
                    | Some err \<Rightarrow> err \<noteq> ERROR_ALREADY_EXISTS) then 1
           else if FindFirstFileW e (args ! 1 @ [bslash] @ L ''*.lnk'') = None then 1
           else 0)
     else (if length args \<noteq> 2 then 1
           else if (case FindFirstFileW e (args ! 0 @ [bslash] @ L ''*.lnk'') of
                      None \<Rightarrow> []
                    | Some ffds \<Rightarrow> single_loop e (args ! 0) ffds []) = [] then 1
           else 0)) \<and>
   fst (wmain (e\<lparr>mz_zip_writer_open_file := f\<rparr>) argv0 args w) = fst (wmain e argv0 args w) \<and>
   (source_folder \<noteq> L ''--split'' \<and>
    FindFirstFileW e (source_folder @ [bslash] @ L ''*.lnk'') = Some lnks \<and>
    single_loop e source_folder lnks [] \<noteq> [] \<and>
    \<not> mz_zip_writer_open_file e output \<longrightarrow>
      wmain e argv0 [source_folder, output] w =
        (0, w\<lparr>console := console w @ [CannotOpen output]\<rparr>)) \<and>
   (resolve_link e (source_folder @ [bslash] @ cFileName ffd) = Some t \<and>
    \<not> mz_zip_writer_open_file e (output @ [bslash] @ link_name (cFileName ffd) @ L ''.zip'') \<longrightarrow>
      split_loop e source_folder output (ffd # ffds) w =
      split_loop e source_folder output ffds
        (w\<lparr>console := console w @
           [CannotOpen (output @ [bslash] @ link_name (cFileName ffd) @ L ''.zip'')]\<rparr>))"
proof (intro conjI impI)
  show "fst (wmain e argv0 args w) =
    (if args \<noteq> [] \<and> hd args = L ''--split''
     then (if length args \<noteq> 3 then 1
           else if (case CreateDirectoryW e (args ! 2) of
                      None \<Rightarrow> False
                    | Some err \<Rightarrow> err \<noteq> ERROR_ALREADY_EXISTS) then 1
           else if FindFirstFileW e (args ! 1 @ [bslash] @ L ''*.lnk'') = None then 1
           else 0)
     else (if length args \<noteq> 2 then 1
           else if (case FindFirstFileW e (args ! 0 @ [bslash] @ L ''*.lnk'') of
                      None \<Rightarrow> []
                    | Some ffds \<Rightarrow> single_loop e (args ! 0) ffds []) = [] then 1
           else 0))"
    by (rule wmain_exit_code)
  show "fst (wmain (e\<lparr>mz_zip_writer_open_file := f\<rparr>) argv0 args w) = fst (wmain e argv0 args w)"
    by (rule wmain_code_open_irrelevant)
next
  assume "source_folder \<noteq> L ''--split'' \<and>
    FindFirstFileW e (source_folder @ [bslash] @ L ''*.lnk'') = Some lnks \<and>
    single_loop e source_folder lnks [] \<noteq> [] \<and>
    \<not> mz_zip_writer_open_file e output"
  then show "wmain e argv0 [source_folder, output] w =
        (0, w\<lparr>console := console w @ [CannotOpen output]\<rparr>)"
    using wmain_single_closed by blast
next
  assume "resolve_link e (source_folder @ [bslash] @ cFileName ffd) = Some t \<and>
    \<not> mz_zip_writer_open_file e (output @ [bslash] @ link_name (cFileName ffd) @ L ''.zip'')"
  then show "split_loop e source_folder output (ffd # ffds) w =
      split_loop e source_folder output ffds
        (w\<lparr>console := console w @
           [CannotOpen (output @ [bslash] @ link_name (cFileName ffd) @ L ''.zip'')]\<rparr>)"
    using split_loop_closed by blast
qed


theorem exit_code_witness:
  "L ''S'' \<noteq> L ''--split'' \<and>
   single_loop (env_ex\<lparr>mz_zip_writer_open_file := \<lambda>p. False\<rparr>) (L ''S'')
     [Dirent (L ''A.lnk'') 0x20 None, Dirent (L ''Broken.lnk'') 0x20 None,
      Dirent (L ''B.lnk'') 0x20 None] [] \<noteq> [] \<and>
   \<not> mz_zip_writer_open_file (env_ex\<lparr>mz_zip_writer_open_file := \<lambda>p. False\<rparr>) (L ''O'') \<and>
   wmain (env_ex\<lparr>mz_zip_writer_open_file := \<lambda>p. False\<rparr>) (L ''prog'') [L ''S'', L ''O''] world0 =
     (0, world0\<lparr>console := console world0 @ [CannotOpen (L ''O'')]\<rparr>) \<and>
   fst (wmain env_ex (L ''prog'') [L ''S'', L ''O''] world0) = 0 \<and>
   resolve_link (env_ex\<lparr>mz_zip_writer_open_file := \<lambda>p. False\<rparr>)
     (L ''S'' @ [bslash] @ L ''A.lnk'') = Some (L ''dirA'') \<and>
   split_loop (env_ex\<lparr>mz_zip_writer_open_file := \<lambda>p. False\<rparr>) (L ''S'') (L ''O'')
     [Dirent (L ''A.lnk'') 0x20 None, Dirent (L ''B.lnk'') 0x20 None] world0 =
   split_loop (env_ex\<lparr>mz_zip_writer_open_file := \<lambda>p. False\<rparr>) (L ''S'') (L ''O'')
     [Dirent (L ''B.lnk'') 0x20 None]
     (world0\<lparr>console := console world0 @ [CannotOpen (L ''O'' @ [bslash] @ L ''A'' @ L ''.zip'')]\<rparr>)"
proof -
  let ?e = "env_ex\<lparr>mz_zip_writer_open_file := \<lambda>p. False\<rparr>"
  let ?A = "Dirent (L ''A.lnk'') 0x20 None"
  let ?B = "Dirent (L ''B.lnk'') 0x20 None"
  let ?lnks = "[?A, Dirent (L ''Broken.lnk'') 0x20 None, ?B]"
  have h1: "L ''S'' \<noteq> L ''--split''"
    by (simp add: L_def)
  have h2: "FindFirstFileW ?e (L ''S'' @ [bslash] @ L ''*.lnk'') = Some ?lnks"
    by (simp add: ex_simps)
  have h3: "single_loop ?e (L ''S'') ?lnks [] \<noteq> []"
    by (simp add: link_name_def ex_simps)
  have h4: "\<not> mz_zip_writer_open_file ?e p" for p
    by simp
  have h5: "resolve_link ?e (L ''S'' @ [bslash] @ cFileName ?A) = Some (L ''dirA'')"
    by (simp add: ex_simps)
  note t = exit_code [of ?e "L ''prog''" "[L ''S'', L ''O'']" world0 "\<lambda>p. True" "L ''S''" ?lnks
      "L ''O''" ?A "L ''dirA''" "[?B]"]
  from t h1 h2 h3 h4 have c1: "wmain ?e (L ''prog'') [L ''S'', L ''O''] world0 =
      (0, world0\<lparr>console := console world0 @ [CannotOpen (L ''O'')]\<rparr>)"
    by blast
  from t have "fst (wmain (?e\<lparr>mz_zip_writer_open_file := \<lambda>p. True\<rparr>) (L ''prog'')
        [L ''S'', L ''O''] world0) = fst (wmain ?e (L ''prog'') [L ''S'', L ''O''] world0)"
    by blast
  moreover have "?e\<lparr>mz_zip_writer_open_file := \<lambda>p. True\<rparr> = env_ex"
    by (simp add: env_ex_def)
  ultimately have c2: "fst (wmain env_ex (L ''prog'') [L ''S'', L ''O''] world0) = 0"
    using c1 by simp
  from t h5 h4 have c3: "split_loop ?e (L ''S'') (L ''O'') (?A # [?B]) world0 =
      split_loop ?e (L ''S'') (L ''O'') [?B]
        (world0\<lparr>console := console world0 @
           [CannotOpen (L ''O'' @ [bslash] @ link_name (cFileName ?A) @ L ''.zip'')]\<rparr>)"
    by blast
  from h1 h3 h4 c1 c2 h5 c3 show ?thesis
    by (simp add: link_name_A)
qed

subsection \<open>Claim C10: two shortcuts with one display name\<close>

text \<open>
  Claim C10. In split mode two shortcuts that resolve and have the same display name have
  the same archive path. When that path opens, the archives after the two jobs are those
  before them with the file of this one path set to what the later shortcut's target
  contributes: nothing of the earlier shortcut remains, and only one file is new. So two
  shortcuts that resolve can leave a single archive.
\<close>

theorem split_mode_same_display_name:
  assumes "link_name (cFileName f1) = link_name (cFileName f2)"
    and "resolve_link e (source_folder @ [bslash] @ cFileName f1) = Some t1"
    and "resolve_link e (source_folder @ [bslash] @ cFileName f2) = Some t2"
    and "mz_zip_writer_open_file e (output @ [bslash] @ link_name (cFileName f2) @ L ''.zip'')"
  shows "output @ [bslash] @ link_name (cFileName f1) @ L ''.zip'' =
         output @ [bslash] @ link_name (cFileName f2) @ L ''.zip'' \<and>
         archives (split_loop e source_folder output [f1, f2] w) =
           (archives w)
             (file_of_path e (output @ [bslash] @ link_name (cFileName f2) @ L ''.zip'') \<mapsto>
              written e (collect_entries t2 t2 (FindFirstFileW e (t2 @ [bslash] @ L ''*'')) [])) \<and>
         dom (archives (split_loop e source_folder output [f1, f2] w)) =
           insert (file_of_path e (output @ [bslash] @ link_name (cFileName f2) @ L ''.zip''))
             (dom (archives w))"
  using assms by (simp add: split_loop_Cons zip_entries_archives)

theorem split_mode_same_display_name_witness:
  "Dirent (L ''A.lnk'') 0x20 None \<noteq> Dirent (L ''A'' @ suf @ L ''.lnk'') 0x20 None \<and>
   link_name (L ''A.lnk'') = link_name (L ''A'' @ suf @ L ''.lnk'') \<and>
   resolve_link env_ex (L ''S2'' @ [bslash] @ L ''A.lnk'') = Some (L ''dirA'') \<and>
   resolve_link env_ex (L ''S2'' @ [bslash] @ L ''A'' @ suf @ L ''.lnk'') = Some (L ''dirB'') \<and>
   mz_zip_writer_open_file env_ex (L ''O'' @ [bslash] @ L ''A'' @ L ''.zip'') \<and>
   archives (split_loop env_ex (L ''S2'') (L ''O'')
       [Dirent (L ''A.lnk'') 0x20 None, Dirent (L ''A'' @ suf @ L ''.lnk'') 0x20 None] world0) =
     [file_of_path env_ex (L ''O'' @ [bslash] @ L ''A'' @ L ''.zip'') \<mapsto>
        [(L ''dirB'' @ [bslash] @ L ''y.txt'', L ''y.txt'')]] \<and>
   card (dom (archives (split_loop env_ex (L ''S2'') (L ''O'')
       [Dirent (L ''A.lnk'') 0x20 None, Dirent (L ''A'' @ suf @ L ''.lnk'') 0x20 None] world0))) = 1"
proof -
  let ?f1 = "Dirent (L ''A.lnk'') 0x20 None"
  let ?f2 = "Dirent (L ''A'' @ suf @ L ''.lnk'') 0x20 None"
  have n2: "link_name (L ''A'' @ suf @ L ''.lnk'') = L ''A''"
    by (simp add: link_name_def ex_simps)
  have d: "?f1 \<noteq> ?f2"
    by (simp add: ex_simps)
  have h1: "link_name (L ''A.lnk'') = link_name (L ''A'' @ suf @ L ''.lnk'')"
    by (simp add: link_name_A n2)
  have h2: "resolve_link env_ex (L ''S2'' @ [bslash] @ L ''A.lnk'') = Some (L ''dirA'')"
    by (simp add: ex_simps)
  have h3: "resolve_link env_ex (L ''S2'' @ [bslash] @ L ''A'' @ suf @ L ''.lnk'') = Some (L ''dirB'')"
    by (simp add: ex_simps)
  have h4: "mz_zip_writer_open_file env_ex (L ''O'' @ [bslash] @ L ''A'' @ L ''.zip'')"
    by (simp add: ex_simps)
  have h4': "mz_zip_writer_open_file env_ex
               (L ''O'' @ [bslash] @ link_name (L ''A'' @ suf @ L ''.lnk'') @ L ''.zip'')"
    unfolding n2 by (rule h4)
  have e1: "written env_ex (collect_entries (L ''dirB'') (L ''dirB'')
       (FindFirstFileW env_ex (L ''dirB'' @ [bslash] @ L ''*'')) []) =
     [(L ''dirB'' @ [bslash] @ L ''y.txt'', L ''y.txt'')]"
    by (simp add: written_def zip_adds_def zip_skips_def ex_simps)
  have e2: "archives world0 = Map.empty"
    by (simp add: world0_def)
  note t = split_mode_same_display_name [of ?f1 ?f2 env_ex "L ''S2''" "L ''dirA''" "L ''dirB''"
      "L ''O''" world0, unfolded dirent.sel, OF h1 h2 h3 h4']
  from t have c1: "archives (split_loop env_ex (L ''S2'') (L ''O'') [?f1, ?f2] world0) =
      [file_of_path env_ex (L ''O'' @ [bslash] @ L ''A'' @ L ''.zip'') \<mapsto>
        [(L ''dirB'' @ [bslash] @ L ''y.txt'', L ''y.txt'')]]"
    unfolding n2 e1 e2 by (rule conjunct2 [THEN conjunct1])
  have c2: "card (dom (archives (split_loop env_ex (L ''S2'') (L ''O'') [?f1, ?f2] world0))) = 1"
    unfolding c1 by simp
  from d h1 h2 h3 h4 c1 c2 show ?thesis
    by (intro conjI)
qed

section \<open>Progress and the completion line\<close>

lemma sint_of_nat_small:
  assumes "k < 2 ^ 31"
  shows "sint (word_of_nat k :: 32 word) = int k"
proof -
  have "sint (word_of_nat k :: 32 word) = (int k + 2 ^ 31) mod 2 ^ 32 - 2 ^ 31"
    using int_word_sint [of "int k", where ?'a = 32] by simp
  also have "(int k + 2 ^ 31) mod 2 ^ 32 = int k + 2 ^ 31"
    using assms by (intro mod_pos_pos_trivial) simp_all
  finally show ?thesis
    by simp
qed

lemma tdiv_nonneg:
  assumes "0 \<le> a" and "0 < b"
  shows "tdiv a b = a div b"
  using assms by (cases "a = 0") (simp_all add: tdiv_def)

lemma pct_of_small:
  assumes "i < n" and "n < 2 ^ 31" and "i * 100 < 2 ^ 31"
  shows "pct_of i n = (int i * 100) div int n"
proof -
  have "(word_of_nat i :: 32 word) * 100 = word_of_nat (i * 100)"
    by simp
  then have "sint ((word_of_nat i :: 32 word) * 100) = int (i * 100)"
    using sint_of_nat_small [OF assms(3)] by simp
  moreover have "sint (word_of_nat n :: 32 word) = int n"
    by (rule sint_of_nat_small [OF assms(2)])
  ultimately have "pct_of i n = tdiv (int (i * 100)) (int n)"
    by (simp add: pct_of_def)
  also have "\<dots> = int (i * 100) div int n"
    using assms(1) by (intro tdiv_nonneg) simp_all
  finally show ?thesis
    by simp
qed

lemma pct_of_overflow: "pct_of 21474837 21474838 = - 99"
  by (simp add: pct_of_def tdiv_def)

lemma progress_lines_small:
  assumes "i + length entries \<le> n" and "n \<le> 21474837"
  shows "progress_lines e n i entries =
     map (\<lambda>(j, entry). Progress ((int j * 100) div int n) (rel entry))
       (filter (\<lambda>(j, entry). \<not> zip_skips e entry) (zip [i..<i + length entries] entries))"
  unfolding progress_lines_def
proof (rule map_cong [OF refl])
  fix x assume "x \<in> set (filter (\<lambda>(j, entry). \<not> zip_skips e entry)
                          (zip [i..<i + length entries] entries))"
  then have "fst x \<in> set [i..<i + length entries]"
    by (auto dest: set_zip_leftD)
  with assms have "fst x < n" "n < 2 ^ 31" "fst x * 100 < 2 ^ 31"
    by auto
  then have "pct_of (fst x) n = (int (fst x) * 100) div int n"
    by (rule pct_of_small)
  then show "(case x of (j, entry) \<Rightarrow> Progress (pct_of j n) (rel entry)) =
             (case x of (j, entry) \<Rightarrow> Progress ((int j * 100) div int n) (rel entry))"
    by (cases x) simp
qed

lemma progress_lines_replicate:
  assumes "\<not> zip_skips e en"
  shows "progress_lines e n 0 (replicate m en) = map (\<lambda>j. Progress (pct_of j n) (rel en)) [0..<m]"
proof -
  have "zip [0..<0 + length (replicate m en)] (replicate m en) = map (\<lambda>j. (j, en)) [0..<m]"
    by (simp add: zip_replicate2)
  then show ?thesis
    using assms by (simp add: progress_lines_def filter_map comp_def)
qed

lemma zip_entries_last_progress:
  assumes "mz_zip_writer_open_file e p" and "\<not> zip_skips e en" and "0 < n"
  shows "console (zip_entries e p (replicate n en) w) ! (length (console w) + (n - 1)) =
           Progress (pct_of (n - 1) n) (rel en)"
proof -
  have "console (zip_entries e p (replicate n en) w) =
          console w @ map (\<lambda>j. Progress (pct_of j n) (rel en)) [0..<n] @ [Done (int n) p]"
    using assms(1) by (simp add: zip_entries_open progress_lines_replicate [OF assms(2)])
  then have "console (zip_entries e p (replicate n en) w) ! (length (console w) + (n - 1)) =
             (map (\<lambda>j. Progress (pct_of j n) (rel en)) [0..<n] @ [Done (int n) p]) ! (n - 1)"
    by (simp only: nth_append_length_plus)
  also have "\<dots> = map (\<lambda>j. Progress (pct_of j n) (rel en)) [0..<n] ! (n - 1)"
    using assms(3) by (simp add: nth_append)
  also have "\<dots> = Progress (pct_of (n - 1) n) (rel en)"
    using assms(3) by simp
  finally show ?thesis .
qed


lemma zip_entries_console:
  assumes "mz_zip_writer_open_file e p"
  shows "console (zip_entries e p entries w) =
           console w @ progress_lines e (length entries) 0 entries @
           [Done (int (length entries)) p]"
  using assms by (simp add: zip_entries_open)

subsection \<open>Claim C8: the progress percentage\<close>

text \<open>
  Claim C8 gives the percentage of every index \<open>i\<close> of \<open>n\<close> entries as the floor of
  \<open>i * 100 / n\<close>. The product is an \<^verbatim>\<open>int\<close>: with 21474838 entries the last index
  gives 2147483700, which does not fit in 32 bits, and the line shows -99 where the
  quotient is 99. An entry that fails the test at write time prints no line at all: of
  a hidden file followed by a plain one, only the second has a line.
\<close>

theorem progress_percentage_counterexample:
  "console (zip_entries env_ex (L ''out.zip'')
      (replicate 21474838 \<lparr>full = L ''T'' @ [bslash] @ L ''b.txt'', rel = L ''b.txt''\<rparr>) world0)
     ! 21474837 = Progress (- 99) (L ''b.txt'') \<and>
   (21474837 * 100) div 21474838 = (99 :: int) \<and>
   console (zip_entries env_ex (L ''out.zip'')
      [\<lparr>full = L ''T'' @ [bslash] @ L ''h.txt'', rel = L ''h.txt''\<rparr>,
       \<lparr>full = L ''T'' @ [bslash] @ L ''b.txt'', rel = L ''b.txt''\<rparr>] world0) =
     [Progress 50 (L ''b.txt''), Done 2 (L ''out.zip'')]"
proof -
  let ?en = "\<lparr>full = L ''T'' @ [bslash] @ L ''b.txt'', rel = L ''b.txt''\<rparr>"
  have op: "mz_zip_writer_open_file env_ex (L ''out.zip'')"
    by (simp add: ex_simps)
  have sk: "\<not> zip_skips env_ex ?en"
    by (simp add: zip_skips_def ex_simps)
  have pos: "(0 :: nat) < 21474838"
    by simp
  have b: "length (console world0) + (21474838 - 1) = (21474837 :: nat)"
    by (simp add: world0_def)
  have c: "pct_of (21474838 - 1) 21474838 = - 99"
    by (simp add: pct_of_def tdiv_def)
  have d: "rel ?en = L ''b.txt''"
    by simp
  have first: "console (zip_entries env_ex (L ''out.zip'') (replicate 21474838 ?en) world0)
     ! 21474837 = Progress (- 99) (L ''b.txt'')"
    using zip_entries_last_progress [OF op sk pos, of world0] unfolding b c d .
  have second: "(21474837 * 100) div 21474838 = (99 :: int)"
    by simp
  have third: "console (zip_entries env_ex (L ''out.zip'')
      [\<lparr>full = L ''T'' @ [bslash] @ L ''h.txt'', rel = L ''h.txt''\<rparr>, ?en] world0) =
     [Progress 50 (L ''b.txt''), Done 2 (L ''out.zip'')]"
    by (simp add: zip_entries_def pct_of_def tdiv_def ex_simps)
  from first second third show ?thesis
    by (intro conjI)
qed

text \<open>
  Claim C8, as amended. For an index \<open>i\<close> below a count \<open>n\<close> that fits an \<^verbatim>\<open>int\<close>,
  with \<open>i * 100\<close> below \<open>2^31\<close>, the percentage is the floor of \<open>i * 100 / n\<close>. So when
  an archive opens and holds at most 21474837 entries, the console gains one progress
  line for every entry that passes the test at write time, in order, each with that
  percentage of its index, and then the completion line with the count. When the list
  is empty and the archive opens, no progress line is printed, the completion line
  reports 0, and the archive is written with no entry.
\<close>

theorem progress_percentage:
  "(i < n \<and> n < 2 ^ 31 \<and> i * 100 < 2 ^ 31 \<longrightarrow> pct_of i n = (int i * 100) div int n) \<and>
   (mz_zip_writer_open_file e p \<and> length entries \<le> 21474837 \<longrightarrow>
      console (zip_entries e p entries w) =
        console w @
        map (\<lambda>(j, entry). Progress ((int j * 100) div int (length entries)) (rel entry))
          (filter (\<lambda>(j, entry). \<not> zip_skips e entry) (zip [0..<length entries] entries)) @
        [Done (int (length entries)) p]) \<and>
   (mz_zip_writer_open_file e p \<longrightarrow>
      zip_entries e p [] w =
        w\<lparr>console := console w @ [Done 0 p], archives := (archives w)(file_of_path e p \<mapsto> [])\<rparr>)"
proof (intro conjI impI)
  assume "i < n \<and> n < 2 ^ 31 \<and> i * 100 < 2 ^ 31"
  then show "pct_of i n = (int i * 100) div int n"
    using pct_of_small by blast
next
  assume a: "mz_zip_writer_open_file e p \<and> length entries \<le> 21474837"
  then have "progress_lines e (length entries) 0 entries =
        map (\<lambda>(j, entry). Progress ((int j * 100) div int (length entries)) (rel entry))
          (filter (\<lambda>(j, entry). \<not> zip_skips e entry) (zip [0..<0 + length entries] entries))"
    by (intro progress_lines_small) simp_all
  with a show "console (zip_entries e p entries w) =
        console w @
        map (\<lambda>(j, entry). Progress ((int j * 100) div int (length entries)) (rel entry))
          (filter (\<lambda>(j, entry). \<not> zip_skips e entry) (zip [0..<length entries] entries)) @
        [Done (int (length entries)) p]"
    by (simp add: zip_entries_console)
next
  assume "mz_zip_writer_open_file e p"
  then show "zip_entries e p [] w =
        w\<lparr>console := console w @ [Done 0 p], archives := (archives w)(file_of_path e p \<mapsto> [])\<rparr>"
    by (simp add: zip_entries_open progress_lines_Nil written_Nil)
qed

theorem progress_percentage_witness:
  "(5 :: nat) < 7 \<and> (7 :: nat) < 2 ^ 31 \<and> (5 :: nat) * 100 < 2 ^ 31 \<and>
   pct_of 5 7 = 71 \<and>
   mz_zip_writer_open_file env_ex (L ''out.zip'') \<and>
   console (zip_entries env_ex (L ''out.zip'')
             (collect_entries (L ''T'') (L ''T'') (Some tree_ex) []) world0) =
     [Progress 0 (L ''sub''), Progress 33 (L ''sub'' @ [bslash] @ L ''a.txt''),
      Progress 66 (L ''b.txt''), Done 3 (L ''out.zip'')] \<and>
   zip_entries env_ex (L ''out.zip'') [] world0 =
     \<lparr>console = [Done 0 (L ''out.zip'')], archives = [file_of_path env_ex (L ''out.zip'') \<mapsto> []]\<rparr>"
proof -
  let ?es = "collect_entries (L ''T'') (L ''T'') (Some tree_ex) []"
  have h1: "(5 :: nat) < 7 \<and> (7 :: nat) < 2 ^ 31 \<and> (5 :: nat) * 100 < 2 ^ 31"
    by simp
  have op: "mz_zip_writer_open_file env_ex (L ''out.zip'')"
    by (simp add: ex_simps)
  have es: "?es = [\<lparr>full = L ''T'' @ [bslash] @ L ''sub'', rel = L ''sub''\<rparr>,
                  \<lparr>full = L ''T'' @ [bslash] @ L ''sub'' @ [bslash] @ L ''a.txt'',
                     rel = L ''sub'' @ [bslash] @ L ''a.txt''\<rparr>,
                  \<lparr>full = L ''T'' @ [bslash] @ L ''b.txt'', rel = L ''b.txt''\<rparr>]"
    by (simp add: ex_simps)
  have len: "length ?es \<le> 21474837"
    unfolding es by simp
  note t = progress_percentage [of 5 7 env_ex "L ''out.zip''" ?es world0]
  from t h1 have c1: "pct_of 5 7 = 71"
    by simp
  from t op len have "console (zip_entries env_ex (L ''out.zip'') ?es world0) =
        console world0 @
        map (\<lambda>(j, entry). Progress ((int j * 100) div int (length ?es)) (rel entry))
          (filter (\<lambda>(j, entry). \<not> zip_skips env_ex entry) (zip [0..<length ?es] ?es)) @
        [Done (int (length ?es)) (L ''out.zip'')]"
    by blast
  then have c2: "console (zip_entries env_ex (L ''out.zip'') ?es world0) =
     [Progress 0 (L ''sub''), Progress 33 (L ''sub'' @ [bslash] @ L ''a.txt''),
      Progress 66 (L ''b.txt''), Done 3 (L ''out.zip'')]"
    unfolding es by (simp add: zip_skips_def upt_conv_Cons ex_simps)
  from t op have c3: "zip_entries env_ex (L ''out.zip'') [] world0 =
     \<lparr>console = [Done 0 (L ''out.zip'')], archives = [file_of_path env_ex (L ''out.zip'') \<mapsto> []]\<rparr>"
    by (simp add: world0_def)
  from h1 c1 op c2 c3 show ?thesis
    by (intro conjI) simp_all
qed

lemma progress_line_shown:
  assumes "en \<in> set entries" and "\<not> zip_skips e en"
  shows "\<exists>pct. Progress pct (rel en) \<in> set (progress_lines e n i entries)"
  using assms
proof (induction entries arbitrary: i)
  case Nil
  then show ?case by simp
next
  case (Cons a entries)
  show ?case
  proof (cases "en = a")
    case True
    with Cons.prems(2) show ?thesis
      by (auto simp: progress_lines_Cons)
  next
    case False
    with Cons.prems have "en \<in> set entries"
      by simp
    from Cons.IH [OF this Cons.prems(2), of "Suc i"] show ?thesis
      by (auto simp: progress_lines_Cons)
  qed
qed

lemma length_written:
  "length (written e entries) \<le> length entries"
  "length (written e entries) < length entries \<longleftrightarrow>
     (\<exists>en \<in> set entries. zip_skips e en \<or>
        GetFileAttributesW e (full en) AND FILE_ATTRIBUTE_DIRECTORY \<noteq> 0)"
proof -
  show "length (written e entries) \<le> length entries"
    by (simp add: written_def)
  have "length (filter (zip_adds e) entries) < length entries \<longleftrightarrow>
        (\<exists>en \<in> set entries. \<not> zip_adds e en)"
    by (metis filter_True length_filter_less less_irrefl)
  then show "length (written e entries) < length entries \<longleftrightarrow>
     (\<exists>en \<in> set entries. zip_skips e en \<or>
        GetFileAttributesW e (full en) AND FILE_ATTRIBUTE_DIRECTORY \<noteq> 0)"
    by (auto simp: written_def zip_adds_def)
qed

subsection \<open>Claim C9: the count of the completion line\<close>

text \<open>
  Claim C9. When the archive opens, the completion line is the last line of the run and
  reports the number of entries passed in. The archive never holds more files than that,
  and holds fewer exactly when some entry is skipped by the test at write time or is a
  directory. A directory that passes the test has a progress line and is not added.
\<close>

theorem reported_count:
  assumes "mz_zip_writer_open_file e p"
  shows "last (console (zip_entries e p entries w)) = Done (int (length entries)) p \<and>
         (\<exists>files. archives (zip_entries e p entries w) (file_of_path e p) = Some files \<and>
            length files \<le> length entries \<and>
            (length files < length entries \<longleftrightarrow>
               (\<exists>en \<in> set entries. zip_skips e en \<or>
                  GetFileAttributesW e (full en) AND FILE_ATTRIBUTE_DIRECTORY \<noteq> 0)) \<and>
            (\<forall>en \<in> set entries.
               \<not> zip_skips e en \<and>
               GetFileAttributesW e (full en) AND FILE_ATTRIBUTE_DIRECTORY \<noteq> 0 \<longrightarrow>
                 (\<exists>pct. Progress pct (rel en) \<in> set (console (zip_entries e p entries w))) \<and>
                 (full en, rel en) \<notin> set files))"
proof (intro conjI exI [of _ "written e entries"] ballI impI)
  show "last (console (zip_entries e p entries w)) = Done (int (length entries)) p"
    using assms by (simp add: zip_entries_console)
  show "archives (zip_entries e p entries w) (file_of_path e p) = Some (written e entries)"
    using assms by (simp add: zip_entries_archives)
  show "length (written e entries) \<le> length entries"
    by (rule length_written)
  show "length (written e entries) < length entries \<longleftrightarrow>
          (\<exists>en \<in> set entries. zip_skips e en \<or>
             GetFileAttributesW e (full en) AND FILE_ATTRIBUTE_DIRECTORY \<noteq> 0)"
    by (rule length_written)
next
  fix en
  assume en: "en \<in> set entries"
    and d: "\<not> zip_skips e en \<and> GetFileAttributesW e (full en) AND FILE_ATTRIBUTE_DIRECTORY \<noteq> 0"
  from progress_line_shown [OF en, of e "length entries" 0] d
  show "\<exists>pct. Progress pct (rel en) \<in> set (console (zip_entries e p entries w))"
    using assms by (auto simp: zip_entries_console)
  from d show "(full en, rel en) \<notin> set (written e entries)"
    using written_no_directory by blast
qed

theorem reported_count_witness:
  "mz_zip_writer_open_file env_ex (L ''out.zip'') \<and>
   length (collect_entries (L ''T'') (L ''T'') (Some tree_ex) []) = 3 \<and>
   last (console (zip_entries env_ex (L ''out.zip'')
           (collect_entries (L ''T'') (L ''T'') (Some tree_ex) []) world0)) =
     Done 3 (L ''out.zip'') \<and>
   (\<exists>files. archives (zip_entries env_ex (L ''out.zip'')
                (collect_entries (L ''T'') (L ''T'') (Some tree_ex) []) world0)
              (file_of_path env_ex (L ''out.zip'')) = Some files \<and>
            length files < 3)"
proof -
  let ?es = "collect_entries (L ''T'') (L ''T'') (Some tree_ex) []"
  let ?d = "\<lparr>full = L ''T'' @ [bslash] @ L ''sub'', rel = L ''sub''\<rparr>"
  have op: "mz_zip_writer_open_file env_ex (L ''out.zip'')"
    by (simp add: ex_simps)
  have es: "?es = [?d,
                  \<lparr>full = L ''T'' @ [bslash] @ L ''sub'' @ [bslash] @ L ''a.txt'',
                     rel = L ''sub'' @ [bslash] @ L ''a.txt''\<rparr>,
                  \<lparr>full = L ''T'' @ [bslash] @ L ''b.txt'', rel = L ''b.txt''\<rparr>]"
    by (simp add: ex_simps)
  have len: "length ?es = 3"
    unfolding es by simp
  have dir: "?d \<in> set ?es"
    unfolding es by simp
  have isdir: "GetFileAttributesW env_ex (full ?d) AND FILE_ATTRIBUTE_DIRECTORY \<noteq> 0"
    by (simp add: ex_simps)
  note t = reported_count [OF op, of ?es world0]
  from t have c1: "last (console (zip_entries env_ex (L ''out.zip'') ?es world0)) =
      Done (int (length ?es)) (L ''out.zip'')"
    by (rule conjunct1)
  from t obtain files where f: "archives (zip_entries env_ex (L ''out.zip'') ?es world0)
        (file_of_path env_ex (L ''out.zip'')) = Some files"
      "length files < length ?es \<longleftrightarrow>
         (\<exists>en \<in> set ?es. zip_skips env_ex en \<or>
            GetFileAttributesW env_ex (full en) AND FILE_ATTRIBUTE_DIRECTORY \<noteq> 0)"
    by blast
  from f(2) dir isdir have "length files < length ?es"
    by blast
  with f(1) have c2: "\<exists>files. archives (zip_entries env_ex (L ''out.zip'') ?es world0)
        (file_of_path env_ex (L ''out.zip'')) = Some files \<and> length files < 3"
    unfolding len by blast
  from op len c1 c2 show ?thesis
    unfolding len by simp
qed

end
